theory Spec2Isabelle
  imports Complex_Main "HOL-Library.AList" "HOL-Library.Multiset"
begin

section \<open>Python values: errors, dictionaries, division\<close>

text \<open>
  The functions of \<^verbatim>\<open>estrangement/utils.py\<close> are embedded as HOL functions.
  Every exception the Python can raise is a value \<open>Inl e\<close> of a sum type.
  A Python \<^verbatim>\<open>dict\<close> is an association list with distinct keys in iteration order;
  iteration order is insertion order, and assigning to a key that is already present
  keeps its position (this is \<open>AList.update\<close>). Numbers are exact reals: the rounding of
  IEEE doubles is not part of the model.
\<close>

datatype error = ZeroDivisionError | KeyError | ValueError | IndexError | NetworkXError

type_synonym ('k, 'v) dict = "('k \<times> 'v) list"

definition dict_set :: "'k \<Rightarrow> 'v \<Rightarrow> ('k, 'v) dict \<Rightarrow> ('k, 'v) dict" where
  \<comment> \<open>\<^verbatim>\<open>d[k] = v\<close>\<close>
  "dict_set k v d = AList.update k v d"

definition keys :: "('k, 'v) dict \<Rightarrow> 'k list" where
  "keys d = map fst d"

definition getitem :: "('k, 'v) dict \<Rightarrow> 'k \<Rightarrow> error + 'v" where
  \<comment> \<open>\<^verbatim>\<open>d[k]\<close>, raising KeyError on a missing key\<close>
  "getitem d k = (case map_of d k of None \<Rightarrow> Inl KeyError | Some v \<Rightarrow> Inr v)"

definition dict_of_pairs :: "('k \<times> 'v) list \<Rightarrow> ('k, 'v) dict" where
  \<comment> \<open>\<^verbatim>\<open>dict(pairs)\<close>: a later pair with the same key overwrites the value\<close>
  "dict_of_pairs ps = foldl (\<lambda>d (k, v). dict_set k v d) [] ps"

definition py_div :: "real \<Rightarrow> real \<Rightarrow> error + real" where
  \<comment> \<open>\<^verbatim>\<open>a / float(b)\<close> on Python numbers\<close>
  "py_div a b = (if b = 0 then Inl ZeroDivisionError else Inr (a / b))"

fun py_sum :: "(error + real) list \<Rightarrow> error + real" where
  \<comment> \<open>\<^verbatim>\<open>sum(...)\<close> over a generator whose elements may raise: the first error wins\<close>
  "py_sum [] = Inr 0"
| "py_sum (x # xs) =
     (case x of Inl e \<Rightarrow> Inl e
      | Inr a \<Rightarrow> (case py_sum xs of Inl e \<Rightarrow> Inl e | Inr s \<Rightarrow> Inr (a + s)))"

definition set_add :: "'a \<Rightarrow> 'a list \<Rightarrow> 'a list" where
  \<comment> \<open>\<^verbatim>\<open>s.add(x)\<close> on a set kept as a duplicate-free list\<close>
  "set_add x s = (if x \<in> set s then s else s @ [x])"

section \<open>networkx graphs\<close>

text \<open>
  A \<^verbatim>\<open>networkx.Graph\<close> (networkx 1.x, which has \<^verbatim>\<open>edges_iter\<close> and list-valued
  \<^verbatim>\<open>successors\<close>) is its adjacency dictionary \<^verbatim>\<open>adj\<close>: node \<open>\<rightarrow>\<close> (neighbour \<open>\<rightarrow>\<close> edge data).
  The node dictionary has the same keys in the same order, so \<^verbatim>\<open>G.nodes()\<close> is the key
  list of \<^verbatim>\<open>adj\<close>. Of the edge data only the \<^verbatim>\<open>'weight'\<close> attribute is read by the
  program: the data dictionary is \<open>Some w\<close> when it has a weight and \<open>None\<close> otherwise.
\<close>

type_synonym 'n graph = "('n, ('n, real option) dict) dict"

definition nodes :: "'n graph \<Rightarrow> 'n list" where
  "nodes g = keys g"

definition nbrs_of :: "'n graph \<Rightarrow> 'n \<Rightarrow> ('n, real option) dict" where
  \<comment> \<open>\<^verbatim>\<open>adj[u]\<close> for a node that is present\<close>
  "nbrs_of g u = (case map_of g u of None \<Rightarrow> [] | Some nb \<Rightarrow> nb)"

definition add_node :: "'n \<Rightarrow> 'n graph \<Rightarrow> 'n graph" where
  "add_node u g = (if u \<in> set (keys g) then g else dict_set u [] g)"

definition add_edge :: "'n \<Rightarrow> 'n \<Rightarrow> real option \<Rightarrow> 'n graph \<Rightarrow> 'n graph" where
  \<comment> \<open>\<^verbatim>\<open>G.add_edge(u, v)\<close> (attr \<open>None\<close>) and \<^verbatim>\<open>G.add_edge(u, v, weight=w)\<close> (attr \<open>Some w\<close>):
      both endpoints become nodes, the existing data dictionary of the edge is updated
      and stored under \<^verbatim>\<open>adj[u][v]\<close> and \<^verbatim>\<open>adj[v][u]\<close>.\<close>
  "add_edge u v attr g =
     (let g1 = add_node u g;
          g2 = add_node v g1;
          datadict = (case map_of (nbrs_of g2 u) v of None \<Rightarrow> None | Some d \<Rightarrow> d);
          datadict' = (case attr of None \<Rightarrow> datadict | Some w \<Rightarrow> Some w);
          g3 = dict_set u (dict_set v datadict' (nbrs_of g2 u)) g2
      in dict_set v (dict_set u datadict' (nbrs_of g3 v)) g3)"

definition from_edges :: "('n \<times> 'n \<times> real option) list \<Rightarrow> 'n graph" where
  \<comment> \<open>a graph built from the empty graph by one \<^verbatim>\<open>add_edge\<close> per list element\<close>
  "from_edges es = foldl (\<lambda>g (u, v, a). add_edge u v a g) [] es"

fun edges_from :: "'n list \<Rightarrow> 'n graph \<Rightarrow> ('n \<times> 'n \<times> real option) list" where
  \<comment> \<open>the loop of \<^verbatim>\<open>edges_iter\<close>: each node's neighbours that are not yet in \<^verbatim>\<open>seen\<close>\<close>
  "edges_from seen [] = []"
| "edges_from seen ((n, nbrs) # rest) =
     map (\<lambda>(nbr, d). (n, nbr, d)) (filter (\<lambda>(nbr, d). nbr \<notin> set seen) nbrs)
     @ edges_from (n # seen) rest"

definition edges_data :: "'n graph \<Rightarrow> ('n \<times> 'n \<times> real option) list" where
  \<comment> \<open>\<^verbatim>\<open>G.edges(data=True)\<close>\<close>
  "edges_data g = edges_from [] g"

definition edges :: "'n graph \<Rightarrow> ('n \<times> 'n) list" where
  \<comment> \<open>\<^verbatim>\<open>G.edges()\<close>, \<^verbatim>\<open>G.edges_iter()\<close>: each edge once, as the tuple (first visited node, neighbour)\<close>
  "edges g = map (\<lambda>(u, v, d). (u, v)) (edges_data g)"

definition get_edge_attributes :: "'n graph \<Rightarrow> ('n \<times> 'n, real) dict" where
  \<comment> \<open>\<^verbatim>\<open>nx.get_edge_attributes(G, 'weight')\<close>: the edges that have the attribute, keyed by
      the tuple \<^verbatim>\<open>G.edges()\<close> reports\<close>
  "get_edge_attributes g =
     dict_of_pairs (List.map_filter (\<lambda>(u, v, d). map_option (\<lambda>w. ((u, v), w)) d) (edges_data g))"

definition weight_or_1 :: "real option \<Rightarrow> real" where
  \<comment> \<open>\<^verbatim>\<open>data.get('weight', 1)\<close>\<close>
  "weight_or_1 d = (case d of None \<Rightarrow> 1 | Some w \<Rightarrow> w)"

definition node_degree :: "'n \<Rightarrow> ('n, real option) dict \<Rightarrow> real" where
  \<comment> \<open>one item of \<^verbatim>\<open>degree_iter\<close>:
      \<^verbatim>\<open>sum(nbrs[nbr].get(weight, 1) for nbr in nbrs) + (n in nbrs and nbrs[n].get(weight, 1))\<close>\<close>
  "node_degree n nbrs =
     sum_list (map (\<lambda>(nbr, d). weight_or_1 d) nbrs)
     + (case map_of nbrs n of None \<Rightarrow> 0 | Some d \<Rightarrow> weight_or_1 d)"

definition degree_weighted :: "'n graph \<Rightarrow> ('n, real) dict" where
  \<comment> \<open>\<^verbatim>\<open>G.degree(weight='weight')\<close>: the weights of a node's edges, a self-loop counted twice\<close>
  "degree_weighted g = map (\<lambda>(n, nbrs). (n, node_degree n nbrs)) g"

definition size_weighted :: "'n graph \<Rightarrow> real" where
  \<comment> \<open>\<^verbatim>\<open>G.size(weight='weight')\<close>: half the sum of the weighted degrees\<close>
  "size_weighted g = sum_list (map snd (degree_weighted g)) / 2"

section \<open>graph_distance and node_graph_distance\<close>

definition graph_distance :: "'n graph \<Rightarrow> 'n graph \<Rightarrow> bool \<Rightarrow> error + real" where
  "graph_distance g0 g1 weighted =
     (let intersection = set (edges g1) \<inter> set (edges g0) in
      if \<not> weighted then
        (let union = set (edges g1) \<union> set (edges g0) in
         py_div (real (card union) - real (card intersection)) (real (card union)))
      else
        (let g0weights = get_edge_attributes g0;
             g1weights = get_edge_attributes g1;
             mul = (\<lambda>i. case getitem g0weights i of Inl e \<Rightarrow> Inl e
                        | Inr a \<Rightarrow> (case getitem g1weights i of Inl e \<Rightarrow> Inl e
                                    | Inr b \<Rightarrow> Inr (a * b)));
             sq = (\<lambda>ws i. case getitem ws i of Inl e \<Rightarrow> Inl e | Inr a \<Rightarrow> Inr (a ^ 2))
         in case py_sum (map mul (filter (\<lambda>i. i \<in> intersection) (remdups (edges g1)))) of
              Inl e \<Rightarrow> Inl e
            | Inr dot_product \<Rightarrow>
                (case py_sum (map (sq g1weights) (edges g1)) of
                   Inl e \<Rightarrow> Inl e
                 | Inr e1_norm \<Rightarrow>
                     (case py_sum (map (sq g0weights) (edges g0)) of
                        Inl e \<Rightarrow> Inl e
                      | Inr e0_norm \<Rightarrow>
                          (case py_div dot_product (e0_norm + e1_norm - dot_product) of
                             Inl e \<Rightarrow> Inl e
                           | Inr q \<Rightarrow> Inr (1 - q))))))"


section \<open>Estrangement\<close>

text \<open>
  The three \<^verbatim>\<open>logging.info\<close> calls only format the edge lists and the consort set; they
  have no part in the result and are left out.
\<close>

fun estranged_weights ::
  "('n, 'l) dict \<Rightarrow> ('n \<times> 'n \<times> real option) list \<Rightarrow> error + real list" where
  \<comment> \<open>the list comprehension: for each Zgraph edge the two label lookups of the filter,
      then, when the labels differ, the weight lookup\<close>
  "estranged_weights label_dict [] = Inr []"
| "estranged_weights label_dict ((u, v, d) # es) =
     (case getitem label_dict u of
        Inl e \<Rightarrow> Inl e
      | Inr lu \<Rightarrow>
          (case getitem label_dict v of
             Inl e \<Rightarrow> Inl e
           | Inr lv \<Rightarrow>
               if lu \<noteq> lv then
                 (case d of
                    None \<Rightarrow> Inl KeyError
                  | Some w \<Rightarrow>
                      (case estranged_weights label_dict es of
                         Inl e \<Rightarrow> Inl e
                       | Inr ws \<Rightarrow> Inr (w # ws)))
               else estranged_weights label_dict es))"

definition Estrangement :: "'n graph \<Rightarrow> ('n, 'l) dict \<Rightarrow> 'n graph \<Rightarrow> error + real" where
  "Estrangement G label_dict Zgraph =
     (let consort_edge_set = set (edges Zgraph) \<inter> set (edges G) in
      if card consort_edge_set = 0 then Inr 0
      else (case estranged_weights label_dict (edges_data Zgraph) of
              Inl e \<Rightarrow> Inl e
            | Inr ws \<Rightarrow> py_div (sum_list ws) (size_weighted G)))"

section \<open>match_labels\<close>

definition defaultdict_get :: "('l, 'n list) dict \<Rightarrow> 'l \<Rightarrow> 'n list" where
  \<comment> \<open>\<^verbatim>\<open>d[l]\<close> on a \<^verbatim>\<open>defaultdict(set)\<close>: the empty set for a missing key\<close>
  "defaultdict_get d l = (case map_of d l of None \<Rightarrow> [] | Some s \<Rightarrow> s)"

definition nodesets_per_label :: "('n, 'l) dict \<Rightarrow> ('l, 'n list) dict" where
  \<comment> \<open>the \<^verbatim>\<open>defaultdict(set)\<close> filled by \<^verbatim>\<open>nodesets[l].add(n)\<close> for every item\<close>
  "nodesets_per_label d =
     foldl (\<lambda>acc (n, l). dict_set l (set_add n (defaultdict_get acc l)) acc) [] d"

definition jaccard :: "'n list \<Rightarrow> 'n list \<Rightarrow> error + real" where
  \<comment> \<open>\<^verbatim>\<open>len(a & b) / float(len(a | b))\<close>\<close>
  "jaccard a b = py_div (real (card (set a \<inter> set b))) (real (card (set a \<union> set b)))"

fun overlap_inner ::
  "'l \<Rightarrow> 'n list \<Rightarrow> ('l, 'n list) dict \<Rightarrow> 'l graph \<Rightarrow> error + 'l graph" where
  "overlap_inner l_t nodeset_t [] g = Inr g"
| "overlap_inner l_t nodeset_t ((l_t_minus_1, nodeset_t_minus_1) # rest) g =
     (case jaccard nodeset_t_minus_1 nodeset_t of
        Inl e \<Rightarrow> Inl e
      | Inr j \<Rightarrow> overlap_inner l_t nodeset_t rest (add_edge l_t_minus_1 l_t (Some j) g))"

fun overlap_outer ::
  "('l, 'n list) dict \<Rightarrow> ('l, 'n list) dict \<Rightarrow> 'l graph \<Rightarrow> error + 'l graph" where
  "overlap_outer [] prev g = Inr g"
| "overlap_outer ((l_t, nodeset_t) # rest) prev g =
     (case overlap_inner l_t nodeset_t prev g of
        Inl e \<Rightarrow> Inl e
      | Inr g' \<Rightarrow> overlap_outer rest prev g')"

fun nbr_weights :: "('l, real option) dict \<Rightarrow> error + ('l \<times> real) list" where
  \<comment> \<open>\<^verbatim>\<open>[(nbrs[0], nbrs[1]['weight']) for nbrs in overlap_graph[v].items()]\<close>\<close>
  "nbr_weights [] = Inr []"
| "nbr_weights ((nbr, d) # rest) =
     (case d of
        None \<Rightarrow> Inl KeyError
      | Some w \<Rightarrow> (case nbr_weights rest of Inl e \<Rightarrow> Inl e | Inr ps \<Rightarrow> Inr ((nbr, w) # ps)))"

fun max_by_weight :: "('l \<times> real) list \<Rightarrow> error + ('l \<times> real)" where
  \<comment> \<open>\<^verbatim>\<open>max(list, key=operator.itemgetter(1))\<close>: the first element of maximal weight;
      ValueError on the empty list\<close>
  "max_by_weight [] = Inl ValueError"
| "max_by_weight (x # xs) = Inr (foldl (\<lambda>best y. if snd best < snd y then y else best) x xs)"

type_synonym 'l digraph = "('l, 'l list) dict"

definition di_add_edge :: "'l \<Rightarrow> 'l \<Rightarrow> 'l digraph \<Rightarrow> 'l digraph" where
  \<comment> \<open>\<^verbatim>\<open>DiGraph.add_edge(u, v)\<close> on the successor dictionary: both endpoints become nodes,
      \<open>v\<close> becomes a key of \<^verbatim>\<open>succ[u]\<close>\<close>
  "di_add_edge u v s =
     (let s1 = (if u \<in> set (keys s) then s else dict_set u [] s);
          s2 = (if v \<in> set (keys s1) then s1 else dict_set v [] s1)
      in dict_set u (set_add v (case map_of s2 u of None \<Rightarrow> [] | Some vs \<Rightarrow> vs)) s2)"

definition successors :: "'l digraph \<Rightarrow> 'l \<Rightarrow> error + 'l list" where
  \<comment> \<open>\<^verbatim>\<open>DiGraph.successors(n)\<close>: the keys of \<^verbatim>\<open>succ[n]\<close>; NetworkXError for a node not in the digraph\<close>
  "successors s n = (case map_of s n of None \<Rightarrow> Inl NetworkXError | Some vs \<Rightarrow> Inr vs)"

definition first_successor :: "'l digraph \<Rightarrow> 'l \<Rightarrow> error + 'l" where
  \<comment> \<open>\<^verbatim>\<open>max_overlap_digraph.successors(n)[0]\<close>\<close>
  "first_successor s n =
     (case successors s n of
        Inl e \<Rightarrow> Inl e
      | Inr vs \<Rightarrow> (case vs of [] \<Rightarrow> Inl IndexError | v # _ \<Rightarrow> Inr v))"

fun max_overlap_loop :: "'l list \<Rightarrow> 'l graph \<Rightarrow> 'l digraph \<Rightarrow> error + 'l digraph" where
  \<comment> \<open>\<^verbatim>\<open>for v in overlap_graph.nodes()\<close>\<close>
  "max_overlap_loop [] g s = Inr s"
| "max_overlap_loop (v # vs) g s =
     (case nbr_weights (nbrs_of g v) of
        Inl e \<Rightarrow> Inl e
      | Inr ps \<Rightarrow>
          (case max_by_weight ps of
             Inl e \<Rightarrow> Inl e
           | Inr best \<Rightarrow> max_overlap_loop vs g (di_add_edge v (fst best) s)))"

definition best_matched_label :: "'l digraph \<Rightarrow> 'l \<Rightarrow> error + 'l" where
  \<comment> \<open>the reciprocity test: the first successor of \<open>l_t\<close> when its own first successor is
      \<open>l_t\<close>, otherwise \<open>l_t\<close>\<close>
  "best_matched_label s l_t =
     (case first_successor s l_t of
        Inl e \<Rightarrow> Inl e
      | Inr match_l_t_minus_1 \<Rightarrow>
          (case first_successor s match_l_t_minus_1 of
             Inl e \<Rightarrow> Inl e
           | Inr back \<Rightarrow> Inr (if back = l_t then match_l_t_minus_1 else l_t)))"

fun relabel_loop ::
  "'l list \<Rightarrow> ('l, 'n list) dict \<Rightarrow> 'l digraph \<Rightarrow> ('n, 'l) dict \<Rightarrow> error + ('n, 'l) dict" where
  \<comment> \<open>\<^verbatim>\<open>for l_t in nodesets_per_label_t.keys()\<close>, with the inner loop over the nodes of the group\<close>
  "relabel_loop [] nodesets s matched = Inr matched"
| "relabel_loop (l_t # ls) nodesets s matched =
     (case best_matched_label s l_t of
        Inl e \<Rightarrow> Inl e
      | Inr best \<Rightarrow>
          relabel_loop ls nodesets s
            (foldl (\<lambda>m n. dict_set n best m) matched (defaultdict_get nodesets l_t)))"

definition match_labels :: "('n, 'l) dict \<Rightarrow> ('n, 'l) dict \<Rightarrow> error + ('n, 'l) dict" where
  "match_labels label_dict prev_label_dict =
     (if prev_label_dict = [] then Inr label_dict
      else
        (let nodesets_per_label_t = nodesets_per_label label_dict;
             nodesets_per_label_t_minus_1 = nodesets_per_label prev_label_dict
         in case overlap_outer nodesets_per_label_t nodesets_per_label_t_minus_1 [] of
              Inl e \<Rightarrow> Inl e
            | Inr overlap_graph \<Rightarrow>
                (case max_overlap_loop (nodes overlap_graph) overlap_graph [] of
                   Inl e \<Rightarrow> Inl e
                 | Inr max_overlap_digraph \<Rightarrow>
                     relabel_loop (keys nodesets_per_label_t) nodesets_per_label_t
                       max_overlap_digraph [])))"

section \<open>confidence_interval\<close>





section \<open>Notions used to state the properties\<close>

text \<open>
  The edge set of an undirected graph, with an edge identified by its two endpoints
  whatever the order in which \<^verbatim>\<open>G.edges()\<close> reports them; and two graphs that report
  no edge in opposite orders.
\<close>

definition uedge_set :: "'n graph \<Rightarrow> 'n set set" where
  "uedge_set g = (\<lambda>(u, v). {u, v}) ` set (edges g)"

definition same_orientation :: "'n graph \<Rightarrow> 'n graph \<Rightarrow> bool" where
  "same_orientation g0 g1 \<longleftrightarrow> (\<forall>(u, v) \<in> set (edges g0). (v, u) \<in> set (edges g1) \<longrightarrow> u = v)"

text \<open>
  The dictionaries of a graph have distinct keys, as every Python dictionary has.
\<close>

definition wf_graph :: "'n graph \<Rightarrow> bool" where
  "wf_graph g \<longleftrightarrow> distinct (keys g) \<and> (\<forall>(n, nb) \<in> set g. distinct (keys nb))"


text \<open>
  A Zgraph edge on which the list comprehension of \<open>Estrangement\<close> raises.
\<close>

definition missing_input :: "('n, 'l) dict \<Rightarrow> 'n \<times> 'n \<times> real option \<Rightarrow> bool" where
  \<comment> \<open>an endpoint without a label, or differing labels and no weight\<close>
  "missing_input label_dict e =
     (case e of (u, v, d) \<Rightarrow>
        map_of label_dict u = None \<or> map_of label_dict v = None
        \<or> (map_of label_dict u \<noteq> map_of label_dict v \<and> d = None))"

text \<open>
  The renaming that the last loop of \<open>match_labels\<close> applies to a label.
\<close>

definition relabel :: "'l digraph \<Rightarrow> 'l \<Rightarrow> 'l" where
  "relabel s l = (case best_matched_label s l of Inl e \<Rightarrow> l | Inr b \<Rightarrow> b)"

text \<open>
  Invariants of the loops of \<open>match_labels\<close>: every vertex of the overlap graph has a
  neighbour, every edge of it has a weight and ends in a vertex; every edge joins a label
  of \<open>prev_label_dict\<close> and a label of \<open>label_dict\<close>; every label group has a node; the
  successors recorded in the digraph are vertices of the overlap graph, neighbours of
  their vertex, and every vertex already visited has a first successor.
\<close>

definition overlap_inv :: "'l graph \<Rightarrow> bool" where
  "overlap_inv g \<longleftrightarrow>
     (\<forall>n nb. map_of g n = Some nb \<longrightarrow>
        nb \<noteq> [] \<and> (\<forall>(v, d) \<in> set nb. d \<noteq> None \<and> map_of g v \<noteq> None))"

definition bipartite_inv :: "'l set \<Rightarrow> 'l set \<Rightarrow> 'l graph \<Rightarrow> bool" where
  "bipartite_inv T P g \<longleftrightarrow>
     (\<forall>n nb. map_of g n = Some nb \<longrightarrow>
        (\<forall>(v, d) \<in> set nb. (n \<in> P \<and> v \<in> T) \<or> (n \<in> T \<and> v \<in> P)))"

definition groups_nonempty :: "('l, 'n list) dict \<Rightarrow> bool" where
  "groups_nonempty d \<longleftrightarrow> (\<forall>(l, ns) \<in> set d. ns \<noteq> [])"

definition di_inv :: "'l set \<Rightarrow> 'l digraph \<Rightarrow> bool" where
  "di_inv K s \<longleftrightarrow> (\<forall>v vs. map_of s v = Some vs \<longrightarrow> set vs \<subseteq> K)"

definition di_done :: "'l set \<Rightarrow> 'l digraph \<Rightarrow> bool" where
  "di_done V s \<longleftrightarrow> (\<forall>v \<in> V. \<exists>m vs. map_of s v = Some (m # vs))"

definition di_nbr :: "'l graph \<Rightarrow> 'l digraph \<Rightarrow> bool" where
  "di_nbr g s \<longleftrightarrow> (\<forall>v vs. map_of s v = Some vs \<longrightarrow> set vs \<subseteq> fst ` set (nbrs_of g v))"

text \<open>
  The weights of a graph as a vector indexed by the undirected edges: the weight of the
  edge with endpoints \<open>e\<close> (0 for an absent edge), the dot product of two such vectors
  and the squared norm of one. \<open>all_weighted\<close> says that every edge carries a weight.
\<close>

definition all_weighted :: "'n graph \<Rightarrow> bool" where
  "all_weighted g \<longleftrightarrow> (\<forall>(u, v, d) \<in> set (edges_data g). d \<noteq> None)"

definition edge_weight :: "'n graph \<Rightarrow> 'n set \<Rightarrow> real" where
  "edge_weight g e =
     sum_list (map (\<lambda>(u, v, d). case d of None \<Rightarrow> 0 | Some w \<Rightarrow> w)
                   (filter (\<lambda>(u, v, d). {u, v} = e) (edges_data g)))"

definition edge_dot :: "'n graph \<Rightarrow> 'n graph \<Rightarrow> real" where
  "edge_dot g0 g1 = (\<Sum>e \<in> uedge_set g0 \<inter> uedge_set g1. edge_weight g0 e * edge_weight g1 e)"

definition edge_norm :: "'n graph \<Rightarrow> real" where
  "edge_norm g = (\<Sum>e \<in> uedge_set g. (edge_weight g e)\<^sup>2)"

text \<open>
  An adjacency dictionary is symmetric when \<open>v\<close> is a neighbour of \<open>n\<close> with data \<open>d\<close>
  exactly when \<open>n\<close> is a neighbour of \<open>v\<close> with the same data, as networkx keeps it.
  \<open>loop_weight\<close> is what a self-loop at \<open>n\<close> adds a second time to the degree of \<open>n\<close>.
\<close>

definition symmetric_graph :: "'n graph \<Rightarrow> bool" where
  "symmetric_graph g \<longleftrightarrow> (\<forall>n v d. (v, d) \<in> set (nbrs_of g n) \<longrightarrow> (n, d) \<in> set (nbrs_of g v))"

definition loop_weight :: "'n \<Rightarrow> ('n, real option) dict \<Rightarrow> real" where
  "loop_weight n nb = (case map_of nb n of None \<Rightarrow> 0 | Some d \<Rightarrow> weight_or_1 d)"

text \<open>
  The two sums of \<open>Estrangement\<close> over edges: the weight of the Zgraph edges whose endpoints
  have different labels, and the total weight of \<open>G\<close>, an edge without a weight counting
  as 1. \<open>all_labelled\<close> says that every endpoint of an edge has an entry in \<open>label_dict\<close>.
\<close>

definition weight_or_0 :: "real option \<Rightarrow> real" where
  "weight_or_0 d = (case d of None \<Rightarrow> 0 | Some w \<Rightarrow> w)"

definition all_labelled :: "('n, 'l) dict \<Rightarrow> 'n graph \<Rightarrow> bool" where
  "all_labelled label_dict g \<longleftrightarrow>
     (\<forall>(u, v, d) \<in> set (edges_data g). map_of label_dict u \<noteq> None \<and> map_of label_dict v \<noteq> None)"

definition estranged_weight :: "('n, 'l) dict \<Rightarrow> 'n graph \<Rightarrow> real" where
  "estranged_weight label_dict g =
     sum_list (map (\<lambda>(u, v, d). weight_or_0 d)
                   (filter (\<lambda>(u, v, d). map_of label_dict u \<noteq> map_of label_dict v) (edges_data g)))"

definition total_weight :: "'n graph \<Rightarrow> real" where
  "total_weight g = sum_list (map (\<lambda>(u, v, d). weight_or_1 d) (edges_data g))"

text \<open>
  For \<open>match_labels\<close>: the group of nodes that carry a label, the Jaccard overlap of two
  groups, and the labels of a dictionary in the order in which the dictionary is built,
  each label at its first occurrence. \<open>first_max f xs m\<close> says that \<open>m\<close> is the first
  element of \<open>xs\<close> at which \<open>f\<close> is maximal, which is the element that \<^verbatim>\<open>max\<close> returns.
\<close>

definition label_group :: "('n, 'l) dict \<Rightarrow> 'l \<Rightarrow> 'n set" where
  "label_group d l = {n. (n, l) \<in> set d}"

definition jaccard_overlap :: "'n set \<Rightarrow> 'n set \<Rightarrow> real" where
  "jaccard_overlap A B = real (card (A \<inter> B)) / real (card (A \<union> B))"

fun first_occurrences :: "'a list \<Rightarrow> 'a list" where
  "first_occurrences [] = []"
| "first_occurrences (x # xs) = x # removeAll x (first_occurrences xs)"

definition first_max :: "('a \<Rightarrow> real) \<Rightarrow> 'a list \<Rightarrow> 'a \<Rightarrow> bool" where
  "first_max f xs m \<longleftrightarrow>
     (\<exists>ys zs. xs = ys @ m # zs \<and> (\<forall>y \<in> set ys. f y < f m) \<and> (\<forall>z \<in> set zs. f z \<le> f m))"

text \<open>
  The weight that \<open>jaccard\<close> computes when it does not raise; the neighbour that the
  second loop of \<open>match_labels\<close> selects for a vertex of the overlap graph; and the
  invariant of that loop: the first successor of a vertex in the digraph is this
  neighbour.
\<close>

definition jw :: "'n list \<Rightarrow> 'n list \<Rightarrow> real" where
  "jw a b = real (card (set a \<inter> set b)) / real (card (set a \<union> set b))"

definition max_nbr :: "'l graph \<Rightarrow> 'l \<Rightarrow> 'l" where
  "max_nbr g v =
     (case nbr_weights (nbrs_of g v) of
        Inl e \<Rightarrow> v
      | Inr ps \<Rightarrow> (case max_by_weight ps of Inl e \<Rightarrow> v | Inr best \<Rightarrow> fst best))"

definition di_first :: "'l graph \<Rightarrow> 'l digraph \<Rightarrow> bool" where
  "di_first g s \<longleftrightarrow> (\<forall>v vs. map_of s v = Some vs \<longrightarrow> vs = [] \<or> (\<exists>ws. vs = max_nbr g v # ws))"


section \<open>match_labels on an empty history\<close>

text \<open>
  C7: for every \<open>label_dict\<close>, \<open>match_labels label_dict {}\<close> returns \<open>label_dict\<close>
  itself, without error.
\<close>

theorem match_labels_empty_prev: "match_labels label_dict [] = Inr label_dict"
  by (simp add: match_labels_def)

section \<open>Dictionaries and graph updates\<close>

lemma map_of_dict_set: "map_of (dict_set k v d) = (map_of d)(k \<mapsto> v)"
  by (simp add: dict_set_def update_conv')

lemma set_dict_set_subset: "set (dict_set k v d) \<subseteq> insert (k, v) (set d)"
  unfolding dict_set_def by (induction d) auto

lemma dict_set_not_Nil: "dict_set k v d \<noteq> []"
  unfolding dict_set_def by (cases d) auto

lemma keys_iff_map_of: "k \<in> set (keys d) \<longleftrightarrow> map_of d k \<noteq> None"
  by (simp add: keys_def map_of_eq_None_iff)

lemma keys_Nil: "keys [] = []"
  by (simp add: keys_def)

lemma keys_Cons: "keys ((k, v) # d) = k # keys d"
  by (simp add: keys_def)

lemma keys_dict_set: "set (keys (dict_set k v d)) = insert k (set (keys d))"
  by (simp add: keys_def dict_set_def dom_update)

lemma distinct_keys_dict_set: "distinct (keys d) \<Longrightarrow> distinct (keys (dict_set k v d))"
  unfolding keys_def dict_set_def by (rule distinct_update)

lemma defaultdict_get_dict_set:
  "defaultdict_get (dict_set k v d) l = (if l = k then v else defaultdict_get d l)"
  by (simp add: defaultdict_get_def map_of_dict_set)

lemma map_of_foldl_dict_set:
  "map_of (foldl (\<lambda>m n. dict_set n b m) matched ns) x
     = (if x \<in> set ns then Some b else map_of matched x)"
  by (induction ns arbitrary: matched) (auto simp: map_of_dict_set)

lemma map_of_Some_in_dict_set:
  "(x, y) \<in> set (dict_set k v d) \<Longrightarrow> (x, y) = (k, v) \<or> (x, y) \<in> set d"
  using set_dict_set_subset by fastforce

lemma set_add_not_Nil: "set_add x s \<noteq> []"
  by (auto simp: set_add_def)

lemma set_set_add: "set (set_add x s) = insert x (set s)"
  by (auto simp: set_add_def)

lemma set_add_Cons: "\<exists>m vs. set_add x s = m # vs"
  using set_add_not_Nil[of x s] by (cases "set_add x s") auto

lemma map_of_add_node:
  "map_of (add_node u g) = (if map_of g u = None then (map_of g)(u \<mapsto> []) else map_of g)"
  by (simp add: add_node_def keys_iff_map_of map_of_dict_set)

lemma nbrs_of_add_node_mem:
  "(x, y) \<in> set (nbrs_of (add_node u g) n) \<Longrightarrow> (x, y) \<in> set (nbrs_of g n)"
  by (auto simp: nbrs_of_def map_of_add_node split: option.splits if_splits)

lemma keys_add_node: "set (keys (add_node u g)) = insert u (set (keys g))"
  by (auto simp: add_node_def keys_dict_set)

lemma keys_add_edge: "set (keys (add_edge u v a g)) = {u, v} \<union> set (keys g)"
  by (auto simp: add_edge_def Let_def keys_dict_set keys_add_node)

lemma add_edge_nbrs:
  assumes "map_of (add_edge u v a g) n = Some nb" "(x, d) \<in> set nb"
  shows "(n = u \<and> x = v) \<or> (n = v \<and> x = u) \<or> (\<exists>nb'. map_of g n = Some nb' \<and> (x, d) \<in> set nb')"
proof -
  define g2 where "g2 = add_node v (add_node u g)"
  define dd where "dd = (case a of None \<Rightarrow> (case map_of (nbrs_of g2 u) v of None \<Rightarrow> None | Some d \<Rightarrow> d)
                          | Some w \<Rightarrow> Some w)"
  define nbu where "nbu = dict_set v dd (nbrs_of g2 u)"
  define g3 where "g3 = dict_set u nbu g2"
  define nbv where "nbv = dict_set u dd (nbrs_of g3 v)"
  have m4: "map_of (add_edge u v a g) = ((map_of g2)(u \<mapsto> nbu))(v \<mapsto> nbv)"
    unfolding add_edge_def Let_def g2_def dd_def nbu_def g3_def nbv_def
    by (simp add: map_of_dict_set)
  have old: "\<exists>nb'. map_of g k = Some nb' \<and> (y, e) \<in> set nb'" if "(y, e) \<in> set (nbrs_of g2 k)" for k y e
  proof -
    from that obtain nb' where nb': "map_of g2 k = Some nb'" "(y, e) \<in> set nb'"
      by (cases "map_of g2 k") (auto simp: nbrs_of_def)
    then have "map_of g k = Some nb'"
      by (auto simp: g2_def map_of_add_node split: if_splits)
    with nb' show ?thesis by blast
  qed
  have n3: "nbrs_of g3 v = (if v = u then nbu else nbrs_of g2 v)"
    by (simp add: g3_def nbrs_of_def map_of_dict_set)
  have inu: "(y, e) \<in> set nbu \<Longrightarrow> y = v \<or> (y, e) \<in> set (nbrs_of g2 u)" for y e
    unfolding nbu_def by (auto dest: map_of_Some_in_dict_set)
  have inv: "(y, e) \<in> set nbv \<Longrightarrow> y = u \<or> (y, e) \<in> set (nbrs_of g3 v)" for y e
    unfolding nbv_def by (auto dest: map_of_Some_in_dict_set)
  consider "n = v" "nb = nbv" | "n \<noteq> v" "n = u" "nb = nbu" | "n \<noteq> v" "n \<noteq> u" "map_of g2 n = Some nb"
    using assms(1) by (auto simp: m4 split: if_splits)
  then show ?thesis
  proof cases
    case 1
    with assms(2) inv[of x d] have "x = u \<or> (x, d) \<in> set (nbrs_of g3 v)" by simp
    then show ?thesis
    proof
      assume "x = u" with 1 show ?thesis by simp
    next
      assume a: "(x, d) \<in> set (nbrs_of g3 v)"
      show ?thesis
      proof (cases "v = u")
        case True
        with a n3 have "(x, d) \<in> set nbu" by simp
        with inu[of x d] have "x = v \<or> (x, d) \<in> set (nbrs_of g2 u)" by blast
        then show ?thesis using 1 True old[of x d u] by auto
      next
        case False
        with a n3 have "(x, d) \<in> set (nbrs_of g2 v)" by simp
        then show ?thesis using 1 old[of x d v] by auto
      qed
    qed
  next
    case 2
    with assms(2) inu[of x d] have "x = v \<or> (x, d) \<in> set (nbrs_of g2 u)" by simp
    then show ?thesis using 2 old[of x d u] by auto
  next
    case 3
    then have "map_of g n = Some nb"
      by (auto simp: g2_def map_of_add_node split: if_splits)
    with assms(2) show ?thesis by blast
  qed
qed

section \<open>match_labels never raises\<close>

lemma overlap_inv_add_edge:
  assumes "overlap_inv g"
  shows "overlap_inv (add_edge u v (Some j) g)"
    and "map_of (add_edge u v (Some j) g) u \<noteq> None"
    and "map_of (add_edge u v (Some j) g) v \<noteq> None"
    and "map_of g n \<noteq> None \<Longrightarrow> map_of (add_edge u v (Some j) g) n \<noteq> None"
proof -
  define g2 where "g2 = add_node v (add_node u g)"
  define nbu where "nbu = dict_set v (Some j) (nbrs_of g2 u)"
  define g3 where "g3 = dict_set u nbu g2"
  define nbv where "nbv = dict_set u (Some j) (nbrs_of g3 v)"
  have g4: "add_edge u v (Some j) g = dict_set v nbv g3"
    by (simp add: add_edge_def Let_def g2_def nbu_def g3_def nbv_def)
  have m4: "map_of (add_edge u v (Some j) g) = ((map_of g2)(u \<mapsto> nbu))(v \<mapsto> nbv)"
    by (simp add: g4 g3_def map_of_dict_set)
  have m2: "\<And>n nb. map_of g2 n = Some nb \<Longrightarrow> nb = [] \<or> map_of g n = Some nb"
    by (auto simp: g2_def map_of_add_node split: if_splits)
  have k2: "\<And>n. map_of g n \<noteq> None \<Longrightarrow> map_of g2 n \<noteq> None"
    by (auto simp: g2_def map_of_add_node split: if_splits)
  have old: "\<And>n x y. (x, y) \<in> set (nbrs_of g2 n) \<Longrightarrow> y \<noteq> None \<and> map_of g x \<noteq> None"
  proof -
    fix n x y assume a: "(x, y) \<in> set (nbrs_of g2 n)"
    then obtain nb where nb: "map_of g2 n = Some nb" "(x, y) \<in> set nb"
      by (cases "map_of g2 n") (auto simp: nbrs_of_def)
    with m2 have "map_of g n = Some nb" by fastforce
    with assms nb show "y \<noteq> None \<and> map_of g x \<noteq> None"
      unfolding overlap_inv_def by fastforce
  qed
  have nbu_ok: "\<And>x y. (x, y) \<in> set nbu \<Longrightarrow> y \<noteq> None \<and> (x = v \<or> map_of g x \<noteq> None)"
    unfolding nbu_def using old by (auto dest!: map_of_Some_in_dict_set)
  have n3: "nbrs_of g3 v = (if v = u then nbu else nbrs_of g2 v)"
    by (simp add: g3_def nbrs_of_def map_of_dict_set)
  have nbv_ok: "y \<noteq> None \<and> (x = u \<or> x = v \<or> map_of g x \<noteq> None)"
    if "(x, y) \<in> set nbv" for x y
  proof -
    from that have "(x, y) = (u, Some j) \<or> (x, y) \<in> set (nbrs_of g3 v)"
      unfolding nbv_def by (rule map_of_Some_in_dict_set)
    then consider "(x, y) = (u, Some j)" | "v = u" "(x, y) \<in> set nbu"
      | "v \<noteq> u" "(x, y) \<in> set (nbrs_of g2 v)"
      by (auto simp: n3 split: if_splits)
    then show ?thesis
    proof cases
      case 1 then show ?thesis by simp
    next
      case 2 then show ?thesis using nbu_ok[of x y] by blast
    next
      case 3 then show ?thesis using old[of x y v] by blast
    qed
  qed
  show "map_of (add_edge u v (Some j) g) u \<noteq> None" by (simp add: m4)
  show "map_of (add_edge u v (Some j) g) v \<noteq> None" by (simp add: m4)
  show k4: "map_of g n \<noteq> None \<Longrightarrow> map_of (add_edge u v (Some j) g) n \<noteq> None" for n
    using k2[of n] by (simp add: m4)
  show "overlap_inv (add_edge u v (Some j) g)"
    unfolding overlap_inv_def
  proof (intro allI impI)
    fix n nb assume a: "map_of (add_edge u v (Some j) g) n = Some nb"
    have key: "\<And>x. x = u \<or> x = v \<or> map_of g x \<noteq> None \<Longrightarrow> map_of (add_edge u v (Some j) g) x \<noteq> None"
      using k2 by (auto simp: m4)
    consider "n = v" "nb = nbv" | "n \<noteq> v" "n = u" "nb = nbu" | "n \<noteq> v" "n \<noteq> u" "map_of g2 n = Some nb"
      using a by (auto simp: m4 split: if_splits)
    then show "nb \<noteq> [] \<and> (\<forall>(x, d)\<in>set nb. d \<noteq> None \<and> map_of (add_edge u v (Some j) g) x \<noteq> None)"
    proof cases
      case 1
      then show ?thesis using nbv_ok key by (auto simp: nbv_def dict_set_not_Nil)
    next
      case 2
      then show ?thesis using nbu_ok key by (auto simp: nbu_def dict_set_not_Nil)
    next
      case 3
      then have "map_of g n = Some nb"
        by (auto simp: g2_def map_of_add_node split: if_splits)
      with assms have h: "nb \<noteq> []" "\<forall>(x, d)\<in>set nb. d \<noteq> None \<and> map_of g x \<noteq> None"
        unfolding overlap_inv_def by blast+
      have "\<forall>(x, d)\<in>set nb. d \<noteq> None \<and> map_of (add_edge u v (Some j) g) x \<noteq> None"
      proof (clarify, intro conjI)
        fix x d assume xd: "(x, d) \<in> set nb"
        with h(2) show "d \<noteq> None" by blast
        from xd h(2) have "map_of g x \<noteq> None" by blast
        then show "map_of (add_edge u v (Some j) g) x \<noteq> None" by (rule k4)
      qed
      with h(1) show ?thesis by blast
    qed
  qed
qed

lemma groups_nonempty_step:
  "groups_nonempty acc \<Longrightarrow> groups_nonempty (dict_set l (set_add n s) acc)"
  unfolding groups_nonempty_def
  using set_dict_set_subset[of l "set_add n s" acc] set_add_not_Nil[of n s] by auto

lemma groups_nonempty_foldl:
  "groups_nonempty acc \<Longrightarrow>
   groups_nonempty (foldl (\<lambda>acc (n, l). dict_set l (set_add n (defaultdict_get acc l)) acc) acc d)"
  by (induction d arbitrary: acc) (auto simp: groups_nonempty_step split: prod.splits)

lemma groups_nonempty_nodesets: "groups_nonempty (nodesets_per_label d)"
  unfolding nodesets_per_label_def
  by (rule groups_nonempty_foldl) (simp add: groups_nonempty_def)

lemma foldl_dict_set_not_Nil:
  "acc \<noteq> [] \<Longrightarrow>
   foldl (\<lambda>acc (n, l). dict_set l (set_add n (defaultdict_get acc l)) acc) acc d \<noteq> []"
  by (induction d arbitrary: acc) (auto simp: dict_set_not_Nil split: prod.splits)

lemma nodesets_not_Nil: "d \<noteq> [] \<Longrightarrow> nodesets_per_label d \<noteq> []"
  unfolding nodesets_per_label_def
  by (cases d) (auto simp: foldl_dict_set_not_Nil dict_set_not_Nil split: prod.splits)

lemma jaccard_defined: "b \<noteq> [] \<Longrightarrow> \<exists>j. jaccard a b = Inr j"
proof -
  assume "b \<noteq> []"
  then have "set a \<union> set b \<noteq> {}" by simp
  then have "card (set a \<union> set b) \<noteq> 0" by (simp del: Un_empty)
  then show ?thesis by (simp add: jaccard_def py_div_def)
qed

lemma overlap_inner_ok:
  assumes "nodeset_t \<noteq> []" "overlap_inv g"
  shows "\<exists>g'. overlap_inner l_t nodeset_t prev g = Inr g' \<and> overlap_inv g'
           \<and> (\<forall>n. map_of g n \<noteq> None \<longrightarrow> map_of g' n \<noteq> None)
           \<and> (prev \<noteq> [] \<longrightarrow> map_of g' l_t \<noteq> None)"
  using assms(2)
proof (induction prev arbitrary: g)
  case Nil
  then show ?case by simp
next
  case (Cons p rest)
  obtain l_p ns_p where p: "p = (l_p, ns_p)" by (cases p)
  from jaccard_defined[OF assms(1)] obtain j where j: "jaccard ns_p nodeset_t = Inr j" by blast
  let ?g1 = "add_edge l_p l_t (Some j) g"
  from overlap_inv_add_edge[OF Cons.prems, where u = l_p and v = l_t and j = j]
  have g1: "overlap_inv ?g1" "map_of ?g1 l_t \<noteq> None"
    "\<And>n. map_of g n \<noteq> None \<Longrightarrow> map_of ?g1 n \<noteq> None" by blast+
  from Cons.IH[OF g1(1)] obtain g' where g': "overlap_inner l_t nodeset_t rest ?g1 = Inr g'"
    "overlap_inv g'" "\<forall>n. map_of ?g1 n \<noteq> None \<longrightarrow> map_of g' n \<noteq> None" by blast
  have "overlap_inner l_t nodeset_t (p # rest) g = Inr g'" by (simp add: p j g'(1))
  moreover have "\<forall>n. map_of g n \<noteq> None \<longrightarrow> map_of g' n \<noteq> None" using g1(3) g'(3) by blast
  moreover have "map_of g' l_t \<noteq> None" using g1(2) g'(3) by blast
  ultimately show ?case using g'(2) by blast
qed

lemma overlap_outer_ok:
  assumes "groups_nonempty t" "overlap_inv g"
  shows "\<exists>g'. overlap_outer t prev g = Inr g' \<and> overlap_inv g'
           \<and> (\<forall>n. map_of g n \<noteq> None \<longrightarrow> map_of g' n \<noteq> None)
           \<and> (prev \<noteq> [] \<longrightarrow> (\<forall>l \<in> set (keys t). map_of g' l \<noteq> None))"
  using assms
proof (induction t arbitrary: g)
  case Nil
  then show ?case by (simp add: keys_def)
next
  case (Cons p rest)
  obtain l_t ns_t where p: "p = (l_t, ns_t)" by (cases p)
  from Cons.prems(1) have ne: "ns_t \<noteq> []" and rest: "groups_nonempty rest"
    by (auto simp: groups_nonempty_def p)
  from overlap_inner_ok[OF ne Cons.prems(2), of l_t prev]
  obtain g1 where g1: "overlap_inner l_t ns_t prev g = Inr g1" "overlap_inv g1"
    "\<forall>n. map_of g n \<noteq> None \<longrightarrow> map_of g1 n \<noteq> None"
    "prev \<noteq> [] \<longrightarrow> map_of g1 l_t \<noteq> None" by blast
  from Cons.IH[OF rest g1(2)] obtain g' where g': "overlap_outer rest prev g1 = Inr g'"
    "overlap_inv g'" "\<forall>n. map_of g1 n \<noteq> None \<longrightarrow> map_of g' n \<noteq> None"
    "prev \<noteq> [] \<longrightarrow> (\<forall>l \<in> set (keys rest). map_of g' l \<noteq> None)" by blast
  have "overlap_outer (p # rest) prev g = Inr g'" by (simp add: p g1(1) g'(1))
  moreover have "\<forall>n. map_of g n \<noteq> None \<longrightarrow> map_of g' n \<noteq> None" using g1(3) g'(3) by blast
  moreover have "prev \<noteq> [] \<longrightarrow> (\<forall>l \<in> set (keys (p # rest)). map_of g' l \<noteq> None)"
    using g1(4) g'(3) g'(4) by (auto simp: keys_def p)
  ultimately show ?case using g'(2) by blast
qed

lemma nbr_weights_ok:
  "\<forall>(v, d) \<in> set nb. d \<noteq> None \<Longrightarrow> \<exists>ps. nbr_weights nb = Inr ps \<and> map fst ps = map fst nb"
proof (induction nb)
  case Nil
  then show ?case by simp
next
  case (Cons p rest)
  obtain v d where p: "p = (v, d)" by (cases p)
  with Cons.prems obtain w where w: "d = Some w" by auto
  from Cons.prems have "\<forall>(v, d) \<in> set rest. d \<noteq> None" by simp
  from Cons.IH[OF this] obtain ps where "nbr_weights rest = Inr ps" "map fst ps = map fst rest"
    by blast
  then show ?case by (simp add: p w)
qed

lemma foldl_pick_mem:
  "foldl (\<lambda>best y. if snd best < snd y then y else best) x xs \<in> set (x # xs)"
  by (induction xs arbitrary: x) (auto split: if_splits)

lemma max_by_weight_ok:
  assumes "ps \<noteq> []"
  shows "\<exists>best. max_by_weight ps = Inr best \<and> best \<in> set ps"
proof -
  from assms obtain x xs where ps: "ps = x # xs" by (cases ps) auto
  have "max_by_weight ps = Inr (foldl (\<lambda>best y. if snd best < snd y then y else best) x xs)"
    by (simp add: ps)
  moreover have "foldl (\<lambda>best y. if snd best < snd y then y else best) x xs \<in> set ps"
    unfolding ps by (rule foldl_pick_mem)
  ultimately show ?thesis by blast
qed

lemma map_of_di_add_edge:
  "map_of (di_add_edge u v s) n =
     (if n = u then Some (set_add v (case map_of s u of None \<Rightarrow> [] | Some vs \<Rightarrow> vs))
      else if n = v then (case map_of s v of None \<Rightarrow> Some [] | Some vs \<Rightarrow> Some vs)
      else map_of s n)"
  by (auto simp: di_add_edge_def Let_def keys_iff_map_of map_of_dict_set split: option.splits)

lemma di_inv_add_edge:
  assumes "di_inv K s" "m \<in> K"
  shows "di_inv K (di_add_edge u m s)"
  unfolding di_inv_def
proof (intro allI impI)
  fix v vs assume a: "map_of (di_add_edge u m s) v = Some vs"
  have old: "set (case map_of s n of None \<Rightarrow> [] | Some vs \<Rightarrow> vs) \<subseteq> K" for n
    using assms(1) unfolding di_inv_def by (cases "map_of s n") auto
  consider "v = u" "vs = set_add m (case map_of s u of None \<Rightarrow> [] | Some vs \<Rightarrow> vs)"
    | "v \<noteq> u" "v = m" "vs = (case map_of s m of None \<Rightarrow> [] | Some vs \<Rightarrow> vs)"
    | "v \<noteq> u" "v \<noteq> m" "map_of s v = Some vs"
    using a by (cases "map_of s m") (auto simp: map_of_di_add_edge split: if_splits)
  then show "set vs \<subseteq> K"
  proof cases
    case 1
    then show ?thesis using old[of u] assms(2) by (simp add: set_set_add)
  next
    case 2
    then show ?thesis using old[of m] by simp
  next
    case 3
    then show ?thesis using assms(1) unfolding di_inv_def by blast
  qed
qed

lemma di_done_add_edge: "di_done V s \<Longrightarrow> di_done (insert u V) (di_add_edge u m s)"
  unfolding di_done_def
proof (intro ballI)
  fix v assume a: "\<forall>v\<in>V. \<exists>m vs. map_of s v = Some (m # vs)" and v: "v \<in> insert u V"
  show "\<exists>ma vs. map_of (di_add_edge u m s) v = Some (ma # vs)"
  proof (cases "v = u")
    case True
    then show ?thesis using set_add_Cons by (simp add: map_of_di_add_edge)
  next
    case False
    with v a obtain m' vs where "map_of s v = Some (m' # vs)" by blast
    with False show ?thesis by (auto simp: map_of_di_add_edge)
  qed
qed

lemma max_overlap_loop_ok:
  assumes "overlap_inv g" and K: "K = {n. map_of g n \<noteq> None}"
  shows "di_inv K s \<Longrightarrow> di_done V s \<Longrightarrow> set vs \<subseteq> K \<Longrightarrow>
         \<exists>s'. max_overlap_loop vs g s = Inr s' \<and> di_inv K s' \<and> di_done (V \<union> set vs) s'"
proof (induction vs arbitrary: s V)
  case Nil
  then show ?case by simp
next
  case (Cons v vs)
  from Cons.prems(3) K obtain nb where nb: "map_of g v = Some nb" by auto
  with assms(1) have ne: "nb \<noteq> []" and cl: "\<forall>(x, d) \<in> set nb. d \<noteq> None \<and> map_of g x \<noteq> None"
    unfolding overlap_inv_def by blast+
  from cl have "\<forall>(x, d) \<in> set nb. d \<noteq> None" by blast
  from nbr_weights_ok[OF this] obtain ps where ps: "nbr_weights nb = Inr ps" "map fst ps = map fst nb"
    by blast
  from ps(2) ne have "ps \<noteq> []" by auto
  from max_by_weight_ok[OF this] obtain best where best: "max_by_weight ps = Inr best" "best \<in> set ps"
    by blast
  from best(2) have "fst best \<in> set (map fst ps)" by simp
  with ps(2) have "fst best \<in> fst ` set nb" by simp
  with cl K have bK: "fst best \<in> K" by auto
  let ?s1 = "di_add_edge v (fst best) s"
  have i1: "di_inv K ?s1" using Cons.prems(1) bK by (rule di_inv_add_edge)
  have d1: "di_done (insert v V) ?s1" using Cons.prems(2) by (rule di_done_add_edge)
  from Cons.prems(3) have "set vs \<subseteq> K" by simp
  from Cons.IH[OF i1 d1 this] obtain s' where s': "max_overlap_loop vs g ?s1 = Inr s'"
    "di_inv K s'" "di_done (insert v V \<union> set vs) s'" by blast
  have "max_overlap_loop (v # vs) g s = Inr s'"
    by (simp add: nbrs_of_def nb ps(1) best(1) s'(1))
  moreover have "insert v V \<union> set vs = V \<union> set (v # vs)" by auto
  ultimately show ?case using s'(2,3) by metis
qed

lemma first_successor_ok:
  assumes "di_inv K s" "di_done V s" "v \<in> V"
  shows "\<exists>m. first_successor s v = Inr m \<and> m \<in> K"
proof -
  from assms(2,3) obtain m vs where m: "map_of s v = Some (m # vs)"
    unfolding di_done_def by blast
  with assms(1) have "m \<in> K" unfolding di_inv_def by fastforce
  with m show ?thesis by (simp add: first_successor_def successors_def)
qed

lemma best_matched_label_ok:
  assumes "di_inv K s" "di_done V s" "K \<subseteq> V" "l \<in> V"
  shows "\<exists>b. best_matched_label s l = Inr b"
proof -
  from first_successor_ok[OF assms(1,2,4)] obtain m where m: "first_successor s l = Inr m" "m \<in> K"
    by blast
  with assms(3) have "m \<in> V" by blast
  from first_successor_ok[OF assms(1,2) this] obtain bk where "first_successor s m = Inr bk"
    by blast
  with m(1) show ?thesis by (simp add: best_matched_label_def)
qed

lemma relabel_loop_ok:
  assumes "di_inv K s" "di_done V s" "K \<subseteq> V"
  shows "set ls \<subseteq> V \<Longrightarrow> \<exists>m. relabel_loop ls nodesets s matched = Inr m"
proof (induction ls arbitrary: matched)
  case Nil
  then show ?case by simp
next
  case (Cons l ls)
  from Cons.prems have lV: "l \<in> V" and rest: "set ls \<subseteq> V" by simp_all
  from best_matched_label_ok[OF assms lV] obtain b where b: "best_matched_label s l = Inr b"
    by blast
  from Cons.IH[OF rest] show ?case by (simp add: b)
qed

text \<open>
  C9: \<open>match_labels\<close> terminates normally on every input. In the dense overlap graph every
  vertex has a neighbour, so \<^verbatim>\<open>max\<close> is never called on an empty list, every vertex gets
  an out-neighbour in the digraph, and both \<^verbatim>\<open>successors(...)[0]\<close> lookups succeed:
  none of the error branches of the model is reachable.
\<close>

theorem match_labels_total: "\<exists>m. match_labels label_dict prev_label_dict = Inr m"
proof (cases "prev_label_dict = []")
  case True
  then show ?thesis by (simp add: match_labels_def)
next
  case False
  let ?t = "nodesets_per_label label_dict"
  let ?p = "nodesets_per_label prev_label_dict"
  have p: "?p \<noteq> []" using False by (rule nodesets_not_Nil)
  have e: "overlap_inv ([] :: 'b graph)" by (simp add: overlap_inv_def)
  from overlap_outer_ok[OF groups_nonempty_nodesets e, of label_dict ?p] p
  obtain g where g: "overlap_outer ?t ?p [] = Inr g" "overlap_inv g"
    "\<forall>l \<in> set (keys ?t). map_of g l \<noteq> None" by blast
  define K where "K = {n. map_of g n \<noteq> None}"
  have kn: "set (nodes g) = K" by (auto simp: K_def nodes_def keys_iff_map_of)
  have i0: "di_inv K []" by (simp add: di_inv_def)
  have d0: "di_done {} ([] :: 'b digraph)" by (simp add: di_done_def)
  from max_overlap_loop_ok[OF g(2) K_def i0 d0, of "nodes g"] kn
  obtain s where s: "max_overlap_loop (nodes g) g [] = Inr s" "di_inv K s" "di_done K s"
    by auto
  have sub: "set (keys ?t) \<subseteq> K" using g(3) by (auto simp: K_def)
  from relabel_loop_ok[OF s(2,3) subset_refl sub, of ?t "[]"]
  obtain m where "relabel_loop (keys ?t) ?t s [] = Inr m" by blast
  then show ?thesis using False by (simp add: match_labels_def Let_def g(1) s(1))
qed

section \<open>match_labels renames the label groups\<close>

lemma nodesets_foldl:
  "set (defaultdict_get (foldl (\<lambda>acc (n, l). dict_set l (set_add n (defaultdict_get acc l)) acc) acc d) l)
     = set (defaultdict_get acc l) \<union> {n. (n, l) \<in> set d}"
  by (induction d arbitrary: acc)
     (auto simp: defaultdict_get_dict_set set_set_add split: if_splits)

lemma nodesets_group: "set (defaultdict_get (nodesets_per_label d) l) = {n. (n, l) \<in> set d}"
  by (simp add: nodesets_per_label_def nodesets_foldl) (simp add: defaultdict_get_def)

lemma nodesets_keys_foldl:
  "set (keys (foldl (\<lambda>acc (n, l). dict_set l (set_add n (defaultdict_get acc l)) acc) acc d))
     = set (keys acc) \<union> snd ` set d"
  by (induction d arbitrary: acc) (auto simp: keys_dict_set)

lemma nodesets_keys: "set (keys (nodesets_per_label d)) = snd ` set d"
  by (simp add: nodesets_per_label_def nodesets_keys_foldl) (simp add: keys_def)

lemma relabel_loop_map_of:
  assumes G: "\<And>l n. n \<in> set (defaultdict_get t l) \<longleftrightarrow> lab n = Some l"
  shows "relabel_loop ls t s matched = Inr m \<Longrightarrow>
         map_of m n = (case lab n of
                         None \<Rightarrow> map_of matched n
                       | Some l \<Rightarrow> if l \<in> set ls then Some (relabel s l) else map_of matched n)"
proof (induction ls arbitrary: matched)
  case Nil
  then show ?case by (simp split: option.splits)
next
  case (Cons l ls)
  from Cons.prems obtain b where b: "best_matched_label s l = Inr b"
    and r: "relabel_loop ls t s (foldl (\<lambda>m n. dict_set n b m) matched (defaultdict_get t l)) = Inr m"
    by (auto split: sum.splits)
  have rb: "relabel s l = b" by (simp add: relabel_def b)
  have step: "map_of (foldl (\<lambda>m n. dict_set n b m) matched (defaultdict_get t l)) n
               = (if lab n = Some l then Some b else map_of matched n)"
    by (simp add: map_of_foldl_dict_set G)
  show ?case
    unfolding Cons.IH[OF r] step using rb by (auto split: option.splits)
qed

lemma overlap_inner_keys:
  "overlap_inner l_t nodeset_t prev g = Inr g' \<Longrightarrow>
   set (keys g') \<subseteq> set (keys g) \<union> insert l_t (set (keys prev))"
proof (induction prev arbitrary: g)
  case Nil
  then show ?case by auto
next
  case (Cons p rest)
  obtain l_p ns_p where p: "p = (l_p, ns_p)" by (cases p)
  from Cons.prems obtain j where
    r: "overlap_inner l_t nodeset_t rest (add_edge l_p l_t (Some j) g) = Inr g'"
    by (auto simp: p split: sum.splits)
  from Cons.IH[OF r] show ?case by (auto simp: keys_add_edge p keys_Cons)
qed

lemma overlap_outer_keys:
  "overlap_outer t prev g = Inr g' \<Longrightarrow>
   set (keys g') \<subseteq> set (keys g) \<union> set (keys t) \<union> set (keys prev)"
proof (induction t arbitrary: g)
  case Nil
  then show ?case by auto
next
  case (Cons p rest)
  obtain l_t ns_t where p: "p = (l_t, ns_t)" by (cases p)
  from Cons.prems obtain g1 where g1: "overlap_inner l_t ns_t prev g = Inr g1"
    and r: "overlap_outer rest prev g1 = Inr g'"
    by (auto simp: p split: sum.splits)
  from Cons.IH[OF r] overlap_inner_keys[OF g1] show ?case
    by (auto simp: p keys_Cons)
qed

lemma relabel_involution:
  assumes "di_inv K s" "di_done K s" "l \<in> K"
  shows "relabel s l \<in> K" and "relabel s (relabel s l) = l"
proof -
  from first_successor_ok[OF assms] obtain m where m: "first_successor s l = Inr m" "m \<in> K"
    by blast
  from first_successor_ok[OF assms(1,2) m(2)] obtain b where b: "first_successor s m = Inr b"
    by blast
  have r: "relabel s l = (if b = l then m else l)"
    by (simp add: relabel_def best_matched_label_def m(1) b)
  show "relabel s l \<in> K" using r m(2) assms(3) by simp
  show "relabel s (relabel s l) = l"
  proof (cases "b = l")
    case True
    with r have "relabel s l = m" by simp
    moreover have "relabel s m = l"
      using True by (simp add: relabel_def best_matched_label_def m(1) b)
    ultimately show ?thesis by simp
  next
    case False
    with r have "relabel s l = l" by simp
    then show ?thesis by simp
  qed
qed

lemma relabel_loop_distinct:
  "relabel_loop ls t s matched = Inr m \<Longrightarrow> distinct (keys matched) \<Longrightarrow> distinct (keys m)"
proof (induction ls arbitrary: matched)
  case Nil
  then show ?case by simp
next
  case (Cons l ls)
  from Cons.prems(1) obtain b where
    r: "relabel_loop ls t s (foldl (\<lambda>m n. dict_set n b m) matched (defaultdict_get t l)) = Inr m"
    by (auto split: sum.splits)
  have "distinct (keys (foldl (\<lambda>m n. dict_set n b m) matched ns))" for ns
    using Cons.prems(2) by (induction ns arbitrary: matched) (auto simp: distinct_keys_dict_set)
  from Cons.IH[OF r this] show ?case .
qed

lemma bipartite_inv_add_edge:
  assumes "bipartite_inv T P g" "p \<in> P" "l \<in> T"
  shows "bipartite_inv T P (add_edge p l a g)"
  unfolding bipartite_inv_def
proof (intro allI impI ballI)
  fix n nb xd
  assume a: "map_of (add_edge p l a g) n = Some nb" and b: "xd \<in> set nb"
  obtain x d where xd: "xd = (x, d)" by (cases xd)
  from add_edge_nbrs[OF a b[unfolded xd]]
  consider "n = p" "x = l" | "n = l" "x = p" | nb' where "map_of g n = Some nb'" "(x, d) \<in> set nb'"
    by blast
  then have "(n \<in> P \<and> x \<in> T) \<or> (n \<in> T \<and> x \<in> P)"
  proof cases
    case 1 then show ?thesis using assms(2,3) by simp
  next
    case 2 then show ?thesis using assms(2,3) by simp
  next
    case 3 then show ?thesis using assms(1) unfolding bipartite_inv_def by fastforce
  qed
  then show "case xd of (v, d) \<Rightarrow> (n \<in> P \<and> v \<in> T) \<or> (n \<in> T \<and> v \<in> P)"
    by (simp add: xd)
qed

lemma overlap_inner_bipartite:
  "overlap_inner l_t nodeset_t prev g = Inr g' \<Longrightarrow> bipartite_inv T P g \<Longrightarrow>
   l_t \<in> T \<Longrightarrow> set (keys prev) \<subseteq> P \<Longrightarrow> bipartite_inv T P g'"
proof (induction prev arbitrary: g)
  case Nil
  then show ?case by simp
next
  case (Cons q rest)
  obtain l_p ns_p where q: "q = (l_p, ns_p)" by (cases q)
  from Cons.prems(1) obtain j where
    r: "overlap_inner l_t nodeset_t rest (add_edge l_p l_t (Some j) g) = Inr g'"
    by (auto simp: q split: sum.splits)
  from Cons.prems(4) have lp: "l_p \<in> P" and rest: "set (keys rest) \<subseteq> P"
    by (simp_all add: q keys_Cons)
  from bipartite_inv_add_edge[OF Cons.prems(2) lp Cons.prems(3)]
  have "bipartite_inv T P (add_edge l_p l_t (Some j) g)" .
  from Cons.IH[OF r this Cons.prems(3) rest] show ?case .
qed

lemma overlap_outer_bipartite:
  "overlap_outer t prev g = Inr g' \<Longrightarrow> bipartite_inv T P g \<Longrightarrow>
   set (keys t) \<subseteq> T \<Longrightarrow> set (keys prev) \<subseteq> P \<Longrightarrow> bipartite_inv T P g'"
proof (induction t arbitrary: g)
  case Nil
  then show ?case by simp
next
  case (Cons q rest)
  obtain l_t ns_t where q: "q = (l_t, ns_t)" by (cases q)
  from Cons.prems(1) obtain g1 where g1: "overlap_inner l_t ns_t prev g = Inr g1"
    and r: "overlap_outer rest prev g1 = Inr g'"
    by (auto simp: q split: sum.splits)
  from Cons.prems(3) have lt: "l_t \<in> T" and rest: "set (keys rest) \<subseteq> T"
    by (simp_all add: q keys_Cons)
  from overlap_inner_bipartite[OF g1 Cons.prems(2) lt Cons.prems(4)]
  have "bipartite_inv T P g1" .
  from Cons.IH[OF r this rest Cons.prems(4)] show ?case .
qed

lemma nbr_weights_fst: "nbr_weights nb = Inr ps \<Longrightarrow> map fst ps = map fst nb"
  by (induction nb arbitrary: ps) (auto split: option.splits sum.splits)

lemma max_by_weight_mem: "max_by_weight ps = Inr best \<Longrightarrow> best \<in> set ps"
  using foldl_pick_mem by (cases ps) fastforce+

lemma di_nbr_add_edge:
  assumes "di_nbr g s" "m \<in> fst ` set (nbrs_of g v)"
  shows "di_nbr g (di_add_edge v m s)"
  unfolding di_nbr_def
proof (intro allI impI)
  fix u vs assume a: "map_of (di_add_edge v m s) u = Some vs"
  have old: "set (case map_of s n of None \<Rightarrow> [] | Some vs \<Rightarrow> vs) \<subseteq> fst ` set (nbrs_of g n)" for n
    using assms(1) unfolding di_nbr_def by (cases "map_of s n") auto
  consider "u = v" "vs = set_add m (case map_of s v of None \<Rightarrow> [] | Some vs \<Rightarrow> vs)"
    | "u \<noteq> v" "u = m" "vs = (case map_of s m of None \<Rightarrow> [] | Some vs \<Rightarrow> vs)"
    | "u \<noteq> v" "u \<noteq> m" "map_of s u = Some vs"
    using a by (cases "map_of s m") (auto simp: map_of_di_add_edge split: if_splits)
  then show "set vs \<subseteq> fst ` set (nbrs_of g u)"
  proof cases
    case 1
    then show ?thesis using old[of v] assms(2) by (simp add: set_set_add)
  next
    case 2
    then show ?thesis using old[of m] by simp
  next
    case 3
    then show ?thesis using assms(1) unfolding di_nbr_def by blast
  qed
qed

lemma max_overlap_loop_nbr:
  "max_overlap_loop vs g s = Inr s' \<Longrightarrow> di_nbr g s \<Longrightarrow> di_nbr g s'"
proof (induction vs arbitrary: s)
  case Nil
  then show ?case by simp
next
  case (Cons v vs)
  from Cons.prems(1) obtain ps best where ps: "nbr_weights (nbrs_of g v) = Inr ps"
    and best: "max_by_weight ps = Inr best"
    and r: "max_overlap_loop vs g (di_add_edge v (fst best) s) = Inr s'"
    by (auto split: sum.splits)
  from max_by_weight_mem[OF best] have "fst best \<in> set (map fst ps)" by simp
  with nbr_weights_fst[OF ps] have "fst best \<in> fst ` set (nbrs_of g v)" by simp
  from di_nbr_add_edge[OF Cons.prems(2) this] have "di_nbr g (di_add_edge v (fst best) s)" .
  from Cons.IH[OF r this] show ?case .
qed

lemma relabel_prev_label:
  assumes "bipartite_inv T P g" "di_nbr g s" "l \<in> T" "T \<inter> P = {}"
  shows "relabel s l = l \<or> relabel s l \<in> P"
proof (cases "first_successor s l")
  case (Inl e)
  then show ?thesis by (simp add: relabel_def best_matched_label_def)
next
  case (Inr m)
  then obtain vs where vs: "map_of s l = Some (m # vs)"
    by (auto simp: first_successor_def successors_def split: option.splits list.splits)
  with assms(2) have "m \<in> fst ` set (nbrs_of g l)" unfolding di_nbr_def by fastforce
  then obtain d nb where "map_of g l = Some nb" "(m, d) \<in> set nb"
    by (cases "map_of g l") (auto simp: nbrs_of_def)
  with assms(1) have "(l \<in> P \<and> m \<in> T) \<or> (l \<in> T \<and> m \<in> P)"
    unfolding bipartite_inv_def by fastforce
  with assms(3,4) have "m \<in> P" by blast
  then show ?thesis using Inr
    by (auto simp: relabel_def best_matched_label_def split: sum.splits)
qed

lemma match_labels_run:
  assumes "prev_label_dict \<noteq> []" "match_labels label_dict prev_label_dict = Inr m"
  obtains g s where
    "relabel_loop (keys (nodesets_per_label label_dict)) (nodesets_per_label label_dict) s [] = Inr m"
    "di_inv (set (keys g)) s" "di_done (set (keys g)) s" "di_nbr g s"
    "snd ` set label_dict \<subseteq> set (keys g)"
    "set (keys g) \<subseteq> snd ` set label_dict \<union> snd ` set prev_label_dict"
    "bipartite_inv (snd ` set label_dict) (snd ` set prev_label_dict) g"
proof -
  let ?t = "nodesets_per_label label_dict"
  let ?p = "nodesets_per_label prev_label_dict"
  have p: "?p \<noteq> []" using assms(1) by (rule nodesets_not_Nil)
  have e: "overlap_inv ([] :: 'b graph)" by (simp add: overlap_inv_def)
  from overlap_outer_ok[OF groups_nonempty_nodesets e, of label_dict ?p] p
  obtain g where g: "overlap_outer ?t ?p [] = Inr g" "overlap_inv g"
    "\<forall>l \<in> set (keys ?t). map_of g l \<noteq> None" by blast
  define K where "K = {n. map_of g n \<noteq> None}"
  have kn: "set (keys g) = K" by (auto simp: K_def keys_iff_map_of)
  have i0: "di_inv K []" by (simp add: di_inv_def)
  have d0: "di_done {} ([] :: 'b digraph)" by (simp add: di_done_def)
  from max_overlap_loop_ok[OF g(2) K_def i0 d0, of "nodes g"] kn
  obtain s where s: "max_overlap_loop (nodes g) g [] = Inr s" "di_inv K s" "di_done K s"
    by (auto simp: nodes_def)
  have n0: "di_nbr g []" by (simp add: di_nbr_def)
  have nbr: "di_nbr g s" using max_overlap_loop_nbr[OF s(1) n0] .
  have sub: "snd ` set label_dict \<subseteq> set (keys g)"
    using g(3) by (auto simp: kn K_def nodesets_keys)
  have "set (keys g) \<subseteq> set (keys ([] :: 'b graph)) \<union> set (keys ?t) \<union> set (keys ?p)"
    using g(1) by (rule overlap_outer_keys)
  then have sup: "set (keys g) \<subseteq> snd ` set label_dict \<union> snd ` set prev_label_dict"
    by (simp add: nodesets_keys keys_Nil)
  have b0: "bipartite_inv (snd ` set label_dict) (snd ` set prev_label_dict) ([] :: 'b graph)"
    by (simp add: bipartite_inv_def)
  have bip: "bipartite_inv (snd ` set label_dict) (snd ` set prev_label_dict) g"
    using overlap_outer_bipartite[OF g(1) b0] by (simp add: nodesets_keys)
  from assms have r: "relabel_loop (keys ?t) ?t s [] = Inr m"
    by (simp add: match_labels_def Let_def g(1) s(1))
  have "di_inv (set (keys g)) s" "di_done (set (keys g)) s"
    using s(2,3) by (simp_all add: kn)
  from that[OF r this nbr sub sup bip] show thesis .
qed

lemma match_labels_map_of:
  assumes "distinct (keys label_dict)"
    and "relabel_loop (keys (nodesets_per_label label_dict)) (nodesets_per_label label_dict) s [] = Inr m"
  shows "map_of m n = map_option (relabel s) (map_of label_dict n)"
proof -
  let ?t = "nodesets_per_label label_dict"
  have G: "n \<in> set (defaultdict_get ?t l) \<longleftrightarrow> map_of label_dict n = Some l" for l n
    using assms(1) by (simp add: nodesets_group keys_def)
  show ?thesis
  proof (cases "map_of label_dict n")
    case None
    then show ?thesis using relabel_loop_map_of[OF G assms(2), of n] by simp
  next
    case (Some l)
    then have "(n, l) \<in> set label_dict" by (rule map_of_SomeD)
    then have "l \<in> set (keys ?t)" by (force simp: nodesets_keys)
    with Some show ?thesis using relabel_loop_map_of[OF G assms(2), of n] by simp
  qed
qed

text \<open>
  Whatever the labels are, the result of \<open>match_labels\<close> is \<open>label_dict\<close> with its labels
  renamed: it has the keys of \<open>label_dict\<close>, each once; the renaming is one-to-one on the
  labels of \<open>label_dict\<close>, so that two label groups never receive the same label; and
  every new label is a label of \<open>label_dict\<close> or of \<open>prev_label_dict\<close>.
\<close>

lemma match_labels_renaming:
  assumes "distinct (keys label_dict)" "match_labels label_dict prev_label_dict = Inr m"
  shows "\<exists>f. inj_on f (snd ` set label_dict)
           \<and> f ` snd ` set label_dict \<subseteq> snd ` set label_dict \<union> snd ` set prev_label_dict
           \<and> (\<forall>n. map_of m n = map_option f (map_of label_dict n))
           \<and> distinct (keys m)"
proof (cases "prev_label_dict = []")
  case True
  with assms have "m = label_dict" by (simp add: match_labels_def)
  with assms(1) have "inj_on id (snd ` set label_dict)
           \<and> id ` snd ` set label_dict \<subseteq> snd ` set label_dict \<union> snd ` set prev_label_dict
           \<and> (\<forall>n. map_of m n = map_option id (map_of label_dict n))
           \<and> distinct (keys m)"
    by (simp add: option.map_id0)
  then show ?thesis by blast
next
  case False
  obtain g s where
    r: "relabel_loop (keys (nodesets_per_label label_dict)) (nodesets_per_label label_dict) s [] = Inr m"
    and s: "di_inv (set (keys g)) s" "di_done (set (keys g)) s"
    and nbr: "di_nbr g s"
    and sub: "snd ` set label_dict \<subseteq> set (keys g)"
    and sup: "set (keys g) \<subseteq> snd ` set label_dict \<union> snd ` set prev_label_dict"
    and bip: "bipartite_inv (snd ` set label_dict) (snd ` set prev_label_dict) g"
    by (rule match_labels_run[OF False assms(2)])
  have mo: "\<forall>n. map_of m n = map_option (relabel s) (map_of label_dict n)"
    using match_labels_map_of[OF assms(1) r] by blast
  have inj: "inj_on (relabel s) (snd ` set label_dict)"
  proof (rule inj_on_inverseI)
    fix l assume "l \<in> snd ` set label_dict"
    with sub have "l \<in> set (keys g)" by blast
    from relabel_involution(2)[OF s this] show "relabel s (relabel s l) = l" .
  qed
  have img: "relabel s ` snd ` set label_dict \<subseteq> snd ` set label_dict \<union> snd ` set prev_label_dict"
    using relabel_involution(1)[OF s] sub sup by blast
  have "distinct (keys m)" using relabel_loop_distinct[OF r] by (simp add: keys_def)
  with inj img mo show ?thesis by blast
qed

text \<open>
  When no label occurs in both dictionaries, the overlap graph is bipartite and the new
  label of a node is its own label or a label of \<open>prev_label_dict\<close>.
\<close>

lemma match_labels_disjoint_labels:
  assumes "distinct (keys label_dict)"
    and "snd ` set label_dict \<inter> snd ` set prev_label_dict = {}"
    and "match_labels label_dict prev_label_dict = Inr m"
    and "map_of label_dict n = Some l"
  shows "map_of m n = Some l \<or> (\<exists>p \<in> snd ` set prev_label_dict. map_of m n = Some p)"
proof (cases "prev_label_dict = []")
  case True
  with assms(3,4) show ?thesis by (simp add: match_labels_def)
next
  case False
  obtain g s where
    r: "relabel_loop (keys (nodesets_per_label label_dict)) (nodesets_per_label label_dict) s [] = Inr m"
    and s: "di_inv (set (keys g)) s" "di_done (set (keys g)) s"
    and nbr: "di_nbr g s"
    and sub: "snd ` set label_dict \<subseteq> set (keys g)"
    and sup: "set (keys g) \<subseteq> snd ` set label_dict \<union> snd ` set prev_label_dict"
    and bip: "bipartite_inv (snd ` set label_dict) (snd ` set prev_label_dict) g"
    by (rule match_labels_run[OF False assms(3)])
  from assms(4) have "(n, l) \<in> set label_dict" by (rule map_of_SomeD)
  then have l: "l \<in> snd ` set label_dict" by force
  from relabel_prev_label[OF bip nbr l assms(2)]
  have "relabel s l = l \<or> relabel s l \<in> snd ` set prev_label_dict" .
  moreover have "map_of m n = Some (relabel s l)"
    using match_labels_map_of[OF assms(1) r, of n] assms(4) by simp
  ultimately show ?thesis by auto
qed

section \<open>Labels that occur in both snapshots\<close>

text \<open>
  The overlap graph has one vertex per label: a label that occurs in \<open>label_dict\<close> and
  in \<open>prev_label_dict\<close> is a single vertex, adjacent to labels of both snapshots, and the
  pair (t-1 label \<open>a\<close>, t label \<open>a\<close>) is a self-loop.

  C1: with \<open>label_dict = {1:a, 2:b, 3:b}\<close> and \<open>prev_label_dict = {2:a, 3:a}\<close> the t-group
  \<open>a = {1}\<close> has the single t-1 candidate \<open>a = {2,3}\<close>, of overlap 0, whose own best t-label
  is \<open>b\<close> (overlap 1): the match is not reciprocal, so node 1 should keep \<open>a\<close>. The
  program relabels node 1 to \<open>b\<close>, which is not a t-1 label at all. With the t-1 label
  written \<open>x\<close> instead of \<open>a\<close>, the same partitions give node 1 the label \<open>a\<close>.
\<close>

theorem match_labels_shared_label_swaps:
  "nodesets_per_label [(1::nat, ''a''), (2, ''b''), (3, ''b'')] = [(''a'', [1]), (''b'', [2, 3])]
   \<and> nodesets_per_label [(2::nat, ''a''), (3, ''a'')] = [(''a'', [2, 3])]
   \<and> jaccard [2, 3] [1::nat] = Inr 0
   \<and> jaccard [2, 3] [2, 3::nat] = Inr 1
   \<and> match_labels [(1::nat, ''a''), (2, ''b''), (3, ''b'')] [(2, ''a''), (3, ''a'')]
       = Inr [(1, ''b''), (2, ''a''), (3, ''a'')]
   \<and> match_labels [(1::nat, ''a''), (2, ''b''), (3, ''b'')] [(2, ''x''), (3, ''x'')]
       = Inr [(1, ''a''), (2, ''x''), (3, ''x'')]"
proof -
  have "nodesets_per_label [(1::nat, ''a''), (2, ''b''), (3, ''b'')] = [(''a'', [1]), (''b'', [2, 3])]"
    by code_simp
  moreover have "nodesets_per_label [(2::nat, ''a''), (3, ''a'')] = [(''a'', [2, 3])]"
    by code_simp
  moreover have "jaccard [2, 3] [1::nat] = Inr 0"
    by code_simp
  moreover have "jaccard [2, 3] [2, 3::nat] = Inr 1"
    by code_simp
  moreover have "match_labels [(1::nat, ''a''), (2, ''b''), (3, ''b'')] [(2, ''a''), (3, ''a'')]
       = Inr [(1, ''b''), (2, ''a''), (3, ''a'')]"
    by code_simp
  moreover have "match_labels [(1::nat, ''a''), (2, ''b''), (3, ''b'')] [(2, ''x''), (3, ''x'')]
       = Inr [(1, ''a''), (2, ''x''), (3, ''x'')]"
    by code_simp
  ultimately show ?thesis by blast
qed

text \<open>
  C3: with \<open>label_dict = {1:a, 2:a, 3:b}\<close> and \<open>prev_label_dict = {1:b, 2:b, 3:c, 4:c}\<close>
  node 3 is mapped to \<open>a\<close>: neither its original label \<open>b\<close> nor a label of
  \<open>prev_label_dict\<close>, but the label that the other group of \<open>label_dict\<close> carried. With the
  t-1 labels written \<open>x\<close> and \<open>y\<close> the same partitions give node 3 the label \<open>y\<close> of its
  ancestor.
\<close>

theorem match_labels_output_not_ancestor:
  "match_labels [(1::nat, ''a''), (2, ''a''), (3, ''b'')] [(1, ''b''), (2, ''b''), (3, ''c''), (4, ''c'')]
     = Inr [(1, ''b''), (2, ''b''), (3, ''a'')]
   \<and> map_of [(1::nat, ''a''), (2, ''a''), (3, ''b'')] 3 = Some ''b''
   \<and> ''a'' \<notin> snd ` set [(1::nat, ''b''), (2, ''b''), (3, ''c''), (4, ''c'')]
   \<and> match_labels [(1::nat, ''a''), (2, ''a''), (3, ''b'')] [(1, ''x''), (2, ''x''), (3, ''y''), (4, ''y'')]
     = Inr [(1, ''x''), (2, ''x''), (3, ''y'')]"
proof -
  have "match_labels [(1::nat, ''a''), (2, ''a''), (3, ''b'')] [(1, ''b''), (2, ''b''), (3, ''c''), (4, ''c'')]
     = Inr [(1, ''b''), (2, ''b''), (3, ''a'')]"
    by code_simp
  moreover have "map_of [(1::nat, ''a''), (2, ''a''), (3, ''b'')] 3 = Some ''b''"
    by simp
  moreover have "''a'' \<notin> snd ` set [(1::nat, ''b''), (2, ''b''), (3, ''c''), (4, ''c'')]"
    by simp
  moreover have "match_labels [(1::nat, ''a''), (2, ''a''), (3, ''b'')]
                   [(1, ''x''), (2, ''x''), (3, ''y''), (4, ''y'')]
     = Inr [(1, ''x''), (2, ''x''), (3, ''y'')]"
    by code_simp
  ultimately show ?thesis by blast
qed

section \<open>Edge tuples and undirected edges\<close>

text \<open>
  \<^verbatim>\<open>G.edges()\<close> reports an undirected edge once, as the tuple that starts at the endpoint
  the graph visits first. The set operations of the program compare these tuples. For
  two graphs that report no edge in opposite orders, the unweighted distance is the
  Jaccard distance of the undirected edge sets.
\<close>

lemma edges_from_snd: "(u, v, d) \<in> set (edges_from seen g) \<Longrightarrow> v \<notin> set seen"
  by (induction seen g rule: edges_from.induct) auto

lemma edges_from_no_reverse:
  "(u, v, d) \<in> set (edges_from seen g) \<Longrightarrow> (v, u, d') \<in> set (edges_from seen g) \<Longrightarrow> u = v"
proof (induction seen g rule: edges_from.induct)
  case (1 seen)
  then show ?case by simp
next
  case (2 seen n nbrs rest)
  let ?here = "set (map (\<lambda>(nbr, d). (n, nbr, d)) (filter (\<lambda>(nbr, d). nbr \<notin> set seen) nbrs))"
  let ?later = "set (edges_from (n # seen) rest)"
  have h: "\<And>a b c. (a, b, c) \<in> ?here \<Longrightarrow> a = n" by auto
  have l: "\<And>a b c. (a, b, c) \<in> ?later \<Longrightarrow> b \<noteq> n" using edges_from_snd by fastforce
  from 2(2) have a: "(u, v, d) \<in> ?here \<or> (u, v, d) \<in> ?later" by simp
  from 2(3) have b: "(v, u, d') \<in> ?here \<or> (v, u, d') \<in> ?later" by simp
  from a b h l 2(1) show ?case by metis
qed

lemma edges_no_reverse: "(u, v) \<in> set (edges g) \<Longrightarrow> (v, u) \<in> set (edges g) \<Longrightarrow> u = v"
  unfolding edges_def edges_data_def using edges_from_no_reverse by fastforce

lemma inj_on_uedge:
  assumes "same_orientation g0 g1"
  shows "inj_on (\<lambda>(u, v). {u, v}) (set (edges g0) \<union> set (edges g1))"
proof (rule inj_onI, clarify)
  fix u v u' v'
  assume m: "(u, v) \<in> set (edges g0) \<union> set (edges g1)" "(u', v') \<in> set (edges g0) \<union> set (edges g1)"
    and e: "{u, v} = {u', v'}"
  from e have "(u = u' \<and> v = v') \<or> (u = v' \<and> v = u')" by (simp add: doubleton_eq_iff)
  then show "u = u' \<and> v = v'"
  proof
    assume "u = u' \<and> v = v'" then show ?thesis .
  next
    assume s: "u = v' \<and> v = u'"
    with m have r: "(u, v) \<in> set (edges g0) \<union> set (edges g1)" "(v, u) \<in> set (edges g0) \<union> set (edges g1)"
      by simp_all
    have "u = v"
      using r assms edges_no_reverse[of u v g0] edges_no_reverse[of u v g1]
      unfolding same_orientation_def by blast
    with s show ?thesis by metis
  qed
qed

lemma graph_distance_same_orientation:
  assumes "same_orientation g0 g1" "edges g0 \<noteq> [] \<or> edges g1 \<noteq> []"
  shows "graph_distance g0 g1 False =
           Inr ((real (card (uedge_set g1 \<union> uedge_set g0)) - real (card (uedge_set g1 \<inter> uedge_set g0)))
                / real (card (uedge_set g1 \<union> uedge_set g0)))"
proof -
  let ?f = "\<lambda>(u, v). {u, v}"
  let ?E0 = "set (edges g0)" and ?E1 = "set (edges g1)"
  from inj_on_uedge[OF assms(1)] have inj: "inj_on ?f (?E1 \<union> ?E0)" by (simp add: Un_commute)
  have U: "uedge_set g1 \<union> uedge_set g0 = ?f ` (?E1 \<union> ?E0)"
    by (simp add: uedge_set_def image_Un)
  have I: "uedge_set g1 \<inter> uedge_set g0 = ?f ` (?E1 \<inter> ?E0)"
    unfolding uedge_set_def using inj by (simp add: inj_on_image_Int)
  have cU: "card (uedge_set g1 \<union> uedge_set g0) = card (?E1 \<union> ?E0)"
    unfolding U using inj by (rule card_image)
  have cI: "card (uedge_set g1 \<inter> uedge_set g0) = card (?E1 \<inter> ?E0)"
    unfolding I by (rule card_image) (rule inj_on_subset[OF inj], blast)
  from assms(2) have "?E1 \<union> ?E0 \<noteq> {}" by auto
  then have "card (?E1 \<union> ?E0) \<noteq> 0" by (simp del: Un_empty)
  then show ?thesis by (simp add: graph_distance_def Let_def py_div_def cU cI)
qed

text \<open>
  The graph built by \<^verbatim>\<open>add_edge(1, 9)\<close> reports \<open>(1, 9)\<close>, the graph built by
  \<^verbatim>\<open>add_edge(9, 1)\<close> reports \<open>(9, 1)\<close>.

  C4: the two graphs have the same undirected edge set, so their Jaccard distance is 0;
  \<open>graph_distance g0 g1 False\<close> returns 1. It returns 0 when both graphs are built by
  \<^verbatim>\<open>add_edge(1, 9)\<close>.
\<close>

theorem graph_distance_reversed_edge:
  "graph_distance (from_edges [(1::nat, 9, None)]) (from_edges [(9, 1, None)]) False = Inr 1
   \<and> uedge_set (from_edges [(1::nat, 9, None)]) = uedge_set (from_edges [(9, 1, None)])
   \<and> graph_distance (from_edges [(1::nat, 9, None)]) (from_edges [(1, 9, None)]) False = Inr 0"
proof -
  have "graph_distance (from_edges [(1::nat, 9, None)]) (from_edges [(9, 1, None)]) False = Inr 1"
    by code_simp
  moreover have "uedge_set (from_edges [(1::nat, 9, None)]) = uedge_set (from_edges [(9, 1, None)])"
    by code_simp
  moreover have "graph_distance (from_edges [(1::nat, 9, None)]) (from_edges [(1, 9, None)]) False = Inr 0"
    by code_simp
  ultimately show ?thesis by blast
qed

text \<open>
  C5: the edge between 1 and 9 is present in both graphs, with weights 2 and 3, so
  \<open>dot = 6\<close>, \<open>norm0 = 4\<close>, \<open>norm1 = 9\<close> and the Tanimoto distance is \<open>1 - 6/7\<close>;
  \<open>graph_distance g0 g1 True\<close> finds no common tuple and returns 1. It returns \<open>1/7\<close>
  when both graphs are built by \<^verbatim>\<open>add_edge(1, 9, ...)\<close>.
\<close>

theorem graph_distance_weighted_reversed_edge:
  "graph_distance (from_edges [(1::nat, 9, Some 2)]) (from_edges [(9, 1, Some 3)]) True = Inr 1
   \<and> {1, 9} \<in> uedge_set (from_edges [(1::nat, 9, Some 2)]) \<inter> uedge_set (from_edges [(9, 1, Some 3)])
   \<and> graph_distance (from_edges [(1::nat, 9, Some 2)]) (from_edges [(1, 9, Some 3)]) True = Inr (1 / 7)"
proof -
  have "graph_distance (from_edges [(1::nat, 9, Some 2)]) (from_edges [(9, 1, Some 3)]) True = Inr 1"
    by code_simp
  moreover have "{1, 9} \<in> uedge_set (from_edges [(1::nat, 9, Some 2)])
                   \<inter> uedge_set (from_edges [(9, 1, Some 3)])"
    by code_simp
  moreover have "graph_distance (from_edges [(1::nat, 9, Some 2)]) (from_edges [(1, 9, Some 3)]) True
                   = Inr (1 / 7)"
    by code_simp
  ultimately show ?thesis by blast
qed

text \<open>
  C2: \<open>G\<close> and \<open>Zgraph\<close> share the edge between 1 and 9, its endpoints have different
  labels, the Zgraph weight is 3 and the total weight of \<open>G\<close> is 2, so the estrangement is
  \<open>3/2\<close>; \<open>Estrangement\<close> finds the consort set empty and returns 0. It returns \<open>3/2\<close>
  when \<open>G\<close> is built by \<^verbatim>\<open>add_edge(1, 9, weight=2)\<close>.
\<close>

theorem Estrangement_reversed_edge:
  "Estrangement (from_edges [(9::nat, 1, Some 2)]) [(1, ''a''), (9, ''b'')] (from_edges [(1, 9, Some 3)])
     = Inr 0
   \<and> {1, 9} \<in> uedge_set (from_edges [(1::nat, 9, Some 3)]) \<inter> uedge_set (from_edges [(9, 1, Some 2)])
   \<and> estranged_weights [(1::nat, ''a''), (9, ''b'')] (edges_data (from_edges [(1, 9, Some 3)])) = Inr [3]
   \<and> size_weighted (from_edges [(9::nat, 1, Some 2)]) = 2
   \<and> Estrangement (from_edges [(1::nat, 9, Some 2)]) [(1, ''a''), (9, ''b'')] (from_edges [(1, 9, Some 3)])
     = Inr (3 / 2)"
proof -
  have "Estrangement (from_edges [(9::nat, 1, Some 2)]) [(1, ''a''), (9, ''b'')]
          (from_edges [(1, 9, Some 3)]) = Inr 0"
    by code_simp
  moreover have "{1, 9} \<in> uedge_set (from_edges [(1::nat, 9, Some 3)])
                   \<inter> uedge_set (from_edges [(9, 1, Some 2)])"
    by code_simp
  moreover have "estranged_weights [(1::nat, ''a''), (9, ''b'')]
                   (edges_data (from_edges [(1, 9, Some 3)])) = Inr [3]"
    by code_simp
  moreover have "size_weighted (from_edges [(9::nat, 1, Some 2)]) = 2"
    by code_simp
  moreover have "Estrangement (from_edges [(1::nat, 9, Some 2)]) [(1, ''a''), (9, ''b'')]
          (from_edges [(1, 9, Some 3)]) = Inr (3 / 2)"
    by code_simp
  ultimately show ?thesis by blast
qed

section \<open>Estrangement on disjoint edge sets\<close>

lemma Estrangement_empty_consort:
  "set (edges Zgraph) \<inter> set (edges G) = {} \<Longrightarrow> Estrangement G label_dict Zgraph = Inr 0"
  by (simp add: Estrangement_def)

lemma disjoint_uedge_sets:
  assumes "uedge_set Zgraph \<inter> uedge_set G = {}"
  shows "set (edges Zgraph) \<inter> set (edges G) = {}"
proof (rule ccontr)
  assume "set (edges Zgraph) \<inter> set (edges G) \<noteq> {}"
  then obtain e where "e \<in> set (edges Zgraph)" "e \<in> set (edges G)" by blast
  then have "(\<lambda>(u, v). {u, v}) e \<in> uedge_set Zgraph \<inter> uedge_set G"
    unfolding uedge_set_def by blast
  with assms show False by blast
qed

text \<open>
  C10: when \<open>Zgraph\<close> and \<open>G\<close> have no edge in common, \<open>Estrangement\<close> returns 0 for every
  \<open>label_dict\<close>, also one without an entry for an endpoint of a Zgraph edge: no
  label is looked up and no KeyError is raised.
\<close>

theorem Estrangement_disjoint_edge_sets:
  "uedge_set Zgraph \<inter> uedge_set G = {} \<Longrightarrow> Estrangement G label_dict Zgraph = Inr 0"
  by (rule Estrangement_empty_consort) (rule disjoint_uedge_sets)

theorem Estrangement_disjoint_edge_sets_witness:
  "uedge_set (from_edges [(3::nat, 4, Some 1)]) \<inter> uedge_set (from_edges [(1, 2, Some 1)]) = {}
   \<and> getitem ([] :: (nat, string) dict) 3 = Inl KeyError
   \<and> Estrangement (from_edges [(1::nat, 2, Some 1)]) ([] :: (nat, string) dict)
        (from_edges [(3, 4, Some 1)]) = Inr 0"
proof -
  have h: "uedge_set (from_edges [(3::nat, 4, Some 1)]) \<inter> uedge_set (from_edges [(1, 2, Some 1)]) = {}"
    by code_simp
  have k: "getitem ([] :: (nat, string) dict) 3 = Inl KeyError"
    by (simp add: getitem_def)
  from Estrangement_disjoint_edge_sets [OF h] h k show ?thesis by blast
qed

section \<open>What a violated precondition produces\<close>

lemma edges_from_fst: "(u, v, d) \<in> set (edges_from seen g) \<Longrightarrow> u \<in> fst ` set g"
  by (induction seen g rule: edges_from.induct) force+

lemma distinct_edges_from:
  "distinct (map fst g) \<Longrightarrow> \<forall>(n, nb) \<in> set g. distinct (map fst nb) \<Longrightarrow>
   distinct (map (\<lambda>(u, v, d). (u, v)) (edges_from seen g))"
proof (induction seen g rule: edges_from.induct)
  case (1 seen)
  then show ?case by simp
next
  case (2 seen n nbrs rest)
  have a: "distinct (map (\<lambda>(u, v, d). (u, v)) (edges_from (n # seen) rest))"
    using 2 by simp
  have "distinct (map fst (filter (\<lambda>(nbr, d). nbr \<notin> set seen) nbrs))"
    using 2(3) by (simp add: distinct_map_filter)
  then have b: "distinct (map (\<lambda>(u, v, d). (u, v))
                  (map (\<lambda>(nbr, d). (n, nbr, d)) (filter (\<lambda>(nbr, d). nbr \<notin> set seen) nbrs)))"
    by (simp add: distinct_map inj_on_def comp_def split_beta)
  have c: "\<And>u v d. (u, v, d) \<in> set (edges_from (n # seen) rest) \<Longrightarrow> u \<noteq> n"
    using 2(2) edges_from_fst by fastforce
  have "fst ` set (map (\<lambda>(u, v, d). (u, v))
                  (map (\<lambda>(nbr, d). (n, nbr, d)) (filter (\<lambda>(nbr, d). nbr \<notin> set seen) nbrs))) \<subseteq> {n}"
    by (auto simp: split_beta)
  moreover have "n \<notin> fst ` set (map (\<lambda>(u, v, d). (u, v)) (edges_from (n # seen) rest))"
    using c by (auto simp: split_beta) (metis prod.collapse)
  ultimately have d: "set (map (\<lambda>(u, v, d). (u, v))
                  (map (\<lambda>(nbr, d). (n, nbr, d)) (filter (\<lambda>(nbr, d). nbr \<notin> set seen) nbrs)))
        \<inter> set (map (\<lambda>(u, v, d). (u, v)) (edges_from (n # seen) rest)) = {}"
    by blast
  have "edges_from seen ((n, nbrs) # rest) =
          map (\<lambda>(nbr, d). (n, nbr, d)) (filter (\<lambda>(nbr, d). nbr \<notin> set seen) nbrs)
          @ edges_from (n # seen) rest" by simp
  then show ?case using a b d by (simp only: map_append distinct_append)
qed

lemma distinct_edges: "wf_graph g \<Longrightarrow> distinct (edges g)"
  unfolding wf_graph_def edges_def edges_data_def keys_def
  by (rule distinct_edges_from) auto

lemma dict_of_pairs_foldl:
  "map_of (foldl (\<lambda>d (k, v). dict_set k v d) acc ps) k
     = (case map_of (rev ps) k of None \<Rightarrow> map_of acc k | Some v \<Rightarrow> Some v)"
  by (induction ps arbitrary: acc) (auto simp: map_of_dict_set split: option.splits)

lemma map_of_dict_of_pairs: "map_of (dict_of_pairs ps) k = map_of (rev ps) k"
  by (simp add: dict_of_pairs_def dict_of_pairs_foldl split: option.splits)










lemma estranged_weights_error: "estranged_weights label_dict es = Inl e \<Longrightarrow> e = KeyError"
  by (induction label_dict es rule: estranged_weights.induct)
     (auto simp: getitem_def split: option.splits sum.splits if_splits)









lemma wf_graph_dict_set:
  "wf_graph g \<Longrightarrow> distinct (keys nb) \<Longrightarrow> wf_graph (dict_set n nb g)"
  unfolding wf_graph_def using set_dict_set_subset[of n nb g]
  by (auto simp: distinct_keys_dict_set)

lemma wf_graph_nbrs_of: "wf_graph g \<Longrightarrow> distinct (keys (nbrs_of g u))"
  unfolding wf_graph_def nbrs_of_def
  by (cases "map_of g u") (auto simp: keys_def dest: map_of_SomeD)

lemma wf_graph_add_node: "wf_graph g \<Longrightarrow> wf_graph (add_node u g)"
  by (simp add: add_node_def wf_graph_dict_set keys_def)

lemma wf_graph_add_edge: "wf_graph g \<Longrightarrow> wf_graph (add_edge u v a g)"
  by (simp add: add_edge_def Let_def wf_graph_dict_set wf_graph_add_node wf_graph_nbrs_of
      distinct_keys_dict_set)

lemma wf_graph_foldl:
  "wf_graph g \<Longrightarrow> wf_graph (foldl (\<lambda>g (u, v, a). add_edge u v a g) g es)"
  by (induction es arbitrary: g) (auto simp: wf_graph_add_edge)

text \<open>
  Every graph built by \<^verbatim>\<open>add_edge\<close> calls has dictionaries with distinct keys.
\<close>

lemma wf_graph_from_edges: "wf_graph (from_edges es)"
  unfolding from_edges_def by (rule wf_graph_foldl) (simp add: wf_graph_def keys_def)




section \<open>The weighted distance on graphs of one orientation\<close>

lemma distinct_edges_data: "wf_graph g \<Longrightarrow> distinct (edges_data g)"
  using distinct_edges[of g] unfolding edges_def by (simp add: distinct_map)

lemma filter_eq_singleton:
  "distinct xs \<Longrightarrow> y \<in> set xs \<Longrightarrow> \<forall>x \<in> set xs. P x \<longleftrightarrow> x = y \<Longrightarrow> filter P xs = [y]"
proof (induction xs)
  case Nil
  then show ?case by simp
next
  case (Cons a xs)
  show ?case
  proof (cases "a = y")
    case True
    with Cons.prems have "\<forall>x \<in> set xs. \<not> P x" by auto
    then have "filter P xs = []" by (simp add: filter_empty_conv)
    with True Cons.prems show ?thesis by simp
  next
    case False
    with Cons show ?thesis by auto
  qed
qed

lemma edge_unique:
  assumes "wf_graph g" "(u, v, d) \<in> set (edges_data g)" "(a, b, d') \<in> set (edges_data g)" "{a, b} = {u, v}"
  shows "(a, b, d') = (u, v, d)"
proof -
  have m: "(u, v) \<in> set (edges g)" "(a, b) \<in> set (edges g)"
    using assms(2,3) by (force simp: edges_def)+
  from assms(4) have "(a = u \<and> b = v) \<or> (a = v \<and> b = u)" by (simp add: doubleton_eq_iff)
  then have ab: "a = u \<and> b = v"
  proof
    assume "a = u \<and> b = v" then show ?thesis .
  next
    assume s: "a = v \<and> b = u"
    with m edges_no_reverse[of u v g] have "u = v" by simp
    with s show ?thesis by simp
  qed
  from distinct_edges[OF assms(1)] have "inj_on (\<lambda>(u, v, d). (u, v)) (set (edges_data g))"
    unfolding edges_def by (simp add: distinct_map)
  from inj_onD[OF this _ assms(3,2)] ab show ?thesis by simp
qed

lemma edge_weight_eq:
  assumes "wf_graph g" "(u, v, Some w) \<in> set (edges_data g)"
  shows "edge_weight g {u, v} = w"
proof -
  have "filter (\<lambda>(a, b, d). {a, b} = {u, v}) (edges_data g) = [(u, v, Some w)]"
  proof (rule filter_eq_singleton[OF distinct_edges_data[OF assms(1)] assms(2)], intro ballI)
    fix x assume x: "x \<in> set (edges_data g)"
    obtain a b d' where xe: "x = (a, b, d')" by (cases x)
    show "(case x of (a, b, d) \<Rightarrow> {a, b} = {u, v}) \<longleftrightarrow> x = (u, v, Some w)"
      using edge_unique[OF assms(1,2), of a b d'] x by (auto simp: xe)
  qed
  then show ?thesis by (simp add: edge_weight_def)
qed

lemma getitem_attr_present:
  assumes "wf_graph g" "(u, v, Some w) \<in> set (edges_data g)"
  shows "getitem (get_edge_attributes g) (u, v) = Inr w"
proof -
  let ?ps = "List.map_filter (\<lambda>(u, v, d). map_option (\<lambda>w. ((u, v), w)) d) (edges_data g)"
  have mem: "((u, v), w) \<in> set ?ps"
    using assms(2) by (force simp: map_filter_def)
  have "distinct (map fst ?ps)"
  proof -
    have "map fst ?ps = map (\<lambda>(u, v, d). (u, v)) (filter (\<lambda>(u, v, d). d \<noteq> None) (edges_data g))"
      by (induction "edges_data g") (auto simp: map_filter_def split: prod.splits)
    moreover have "distinct (map (\<lambda>(u, v, d). (u, v)) (filter (\<lambda>(u, v, d). d \<noteq> None) (edges_data g)))"
      using distinct_edges[OF assms(1)] unfolding edges_def by (rule distinct_map_filter)
    ultimately show ?thesis by simp
  qed
  then have "distinct (map fst (rev ?ps))" by (simp add: rev_map[symmetric])
  moreover from mem have "((u, v), w) \<in> set (rev ?ps)" by simp
  ultimately have "map_of (rev ?ps) (u, v) = Some w" by (rule map_of_is_SomeI)
  then show ?thesis by (simp add: getitem_def get_edge_attributes_def map_of_dict_of_pairs)
qed

lemma py_sum_all_Inr:
  "\<forall>x \<in> set xs. f x = Inr (F x) \<Longrightarrow> py_sum (map f xs) = Inr (sum_list (map F xs))"
  by (induction xs) auto

lemma same_orientation_refl: "same_orientation g g"
  unfolding same_orientation_def using edges_no_reverse by fastforce

lemma getitem_edge_weight:
  assumes "wf_graph g" "all_weighted g" "e \<in> set (edges g)"
  shows "getitem (get_edge_attributes g) e = Inr (edge_weight g ((\<lambda>(u, v). {u, v}) e))"
proof -
  obtain u v where e: "e = (u, v)" by (cases e)
  with assms(3) obtain d where d: "(u, v, d) \<in> set (edges_data g)"
    by (force simp: edges_def)
  with assms(2) obtain w where w: "d = Some w" unfolding all_weighted_def by fastforce
  from getitem_attr_present[OF assms(1) d[unfolded w]] edge_weight_eq[OF assms(1) d[unfolded w]]
  show ?thesis by (simp add: e)
qed

lemma sum_edges_uedges:
  assumes "inj_on (\<lambda>(u, v). {u, v}) (set xs)" "distinct xs"
  shows "sum_list (map (\<lambda>e. F ((\<lambda>(u, v). {u, v}) e)) xs) = sum F ((\<lambda>(u, v). {u, v}) ` set xs)"
proof -
  have "sum_list (map (\<lambda>e. F ((\<lambda>(u, v). {u, v}) e)) xs)
          = sum (\<lambda>e. F ((\<lambda>(u, v). {u, v}) e)) (set xs)"
    using assms(2) by (simp add: sum_list_distinct_conv_sum_set)
  also have "\<dots> = sum F ((\<lambda>(u, v). {u, v}) ` set xs)"
    using assms(1) by (simp add: sum.reindex)
  finally show ?thesis .
qed

text \<open>
  On two graphs that carry a weight on every edge and report no common edge in opposite
  orders, the weighted \<open>graph_distance\<close> is the Tanimoto distance of the two weight
  vectors; it raises ZeroDivisionError when the denominator is 0, as on two graphs
  without edges.
\<close>

lemma graph_distance_tanimoto:
  fixes g0 g1 :: "'a graph"
  assumes wf: "wf_graph g0" "wf_graph g1"
    and aw: "all_weighted g0" "all_weighted g1"
    and so: "same_orientation g0 g1"
  shows "graph_distance g0 g1 True =
           (if edge_norm g0 + edge_norm g1 - edge_dot g0 g1 = 0 then Inl ZeroDivisionError
            else Inr (1 - edge_dot g0 g1 / (edge_norm g0 + edge_norm g1 - edge_dot g0 g1)))"
proof -
  let ?f = "\<lambda>(u, v). {u, v}"
  let ?E0 = "set (edges g0)" and ?E1 = "set (edges g1)"
  define dot where "dot = edge_dot g0 g1"
  define norm0 where "norm0 = edge_norm g0"
  define norm1 where "norm1 = edge_norm g1"
  define mul where "mul = (\<lambda>i. case getitem (get_edge_attributes g0) i of Inl e \<Rightarrow> Inl e
                        | Inr a \<Rightarrow> (case getitem (get_edge_attributes g1) i of Inl e \<Rightarrow> Inl e
                                    | Inr b \<Rightarrow> Inr (a * b)))"
  define sq :: "('a \<times> 'a, real) dict \<Rightarrow> 'a \<times> 'a \<Rightarrow> error + real"
    where "sq = (\<lambda>ws i. case getitem ws i of Inl e \<Rightarrow> Inl e | Inr a \<Rightarrow> Inr (a ^ 2))"
  define inter where "inter = filter (\<lambda>i. i \<in> ?E1 \<inter> ?E0) (remdups (edges g1))"
  have gd: "graph_distance g0 g1 True =
      (case py_sum (map mul inter) of Inl e \<Rightarrow> Inl e
       | Inr dot_product \<Rightarrow>
          (case py_sum (map (sq (get_edge_attributes g1)) (edges g1)) of Inl e \<Rightarrow> Inl e
           | Inr e1_norm \<Rightarrow>
              (case py_sum (map (sq (get_edge_attributes g0)) (edges g0)) of Inl e \<Rightarrow> Inl e
               | Inr e0_norm \<Rightarrow>
                  (case py_div dot_product (e0_norm + e1_norm - dot_product) of
                     Inl e \<Rightarrow> Inl e | Inr q \<Rightarrow> Inr (1 - q)))))"
    unfolding graph_distance_def Let_def mul_def sq_def inter_def by simp
  from inj_on_uedge[OF so] have inj: "inj_on ?f (?E0 \<union> ?E1)" .
  have inj0: "inj_on ?f ?E0" and inj1: "inj_on ?f ?E1"
    using inj by (auto intro: inj_on_subset)
  have injI: "inj_on ?f (set inter)"
    using inj by (rule inj_on_subset) (auto simp: inter_def)
  have n1: "py_sum (map (sq (get_edge_attributes g1)) (edges g1)) = Inr norm1"
  proof -
    have "py_sum (map (sq (get_edge_attributes g1)) (edges g1))
            = Inr (sum_list (map (\<lambda>e. (edge_weight g1 (?f e))\<^sup>2) (edges g1)))"
      by (rule py_sum_all_Inr) (simp add: sq_def getitem_edge_weight[OF wf(2) aw(2)])
    also have "sum_list (map (\<lambda>e. (edge_weight g1 (?f e))\<^sup>2) (edges g1)) = norm1"
      unfolding norm1_def edge_norm_def uedge_set_def
      using sum_edges_uedges[OF inj1 distinct_edges[OF wf(2)], of "\<lambda>E. (edge_weight g1 E)\<^sup>2"] .
    finally show ?thesis .
  qed
  have n0: "py_sum (map (sq (get_edge_attributes g0)) (edges g0)) = Inr norm0"
  proof -
    have "py_sum (map (sq (get_edge_attributes g0)) (edges g0))
            = Inr (sum_list (map (\<lambda>e. (edge_weight g0 (?f e))\<^sup>2) (edges g0)))"
      by (rule py_sum_all_Inr) (simp add: sq_def getitem_edge_weight[OF wf(1) aw(1)])
    also have "sum_list (map (\<lambda>e. (edge_weight g0 (?f e))\<^sup>2) (edges g0)) = norm0"
      unfolding norm0_def edge_norm_def uedge_set_def
      using sum_edges_uedges[OF inj0 distinct_edges[OF wf(1)], of "\<lambda>E. (edge_weight g0 E)\<^sup>2"] .
    finally show ?thesis .
  qed
  have d: "py_sum (map mul inter) = Inr dot"
  proof -
    have si: "set inter = ?E1 \<inter> ?E0" by (auto simp: inter_def)
    have di: "distinct inter" by (simp add: inter_def)
    have "py_sum (map mul inter)
            = Inr (sum_list (map (\<lambda>e. edge_weight g0 (?f e) * edge_weight g1 (?f e)) inter))"
      by (rule py_sum_all_Inr)
         (simp add: si mul_def getitem_edge_weight[OF wf(1) aw(1)] getitem_edge_weight[OF wf(2) aw(2)])
    also have "sum_list (map (\<lambda>e. edge_weight g0 (?f e) * edge_weight g1 (?f e)) inter)
                 = sum (\<lambda>E. edge_weight g0 E * edge_weight g1 E) (?f ` set inter)"
      using sum_edges_uedges[OF injI di, of "\<lambda>E. edge_weight g0 E * edge_weight g1 E"] .
    also have "?f ` set inter = uedge_set g0 \<inter> uedge_set g1"
      unfolding si uedge_set_def using inj_on_image_Int[OF inj, of ?E1 ?E0] by auto
    finally show ?thesis by (simp add: dot_def edge_dot_def)
  qed
  show ?thesis by (simp add: gd d n1 n0 py_div_def dot_def norm0_def norm1_def)
qed

text \<open>
  The distance of the graph with the edges 1-2 (weight 2) and 2-3 (weight 1) to the graph
  with the edge 1-2 (weight 3): dot product 6, squared norms 5 and 9, distance 1 - 6/8.
\<close>

lemma graph_distance_tanimoto_example:
  "edge_dot (from_edges [(1::nat, 2, Some 2), (2, 3, Some 1)]) (from_edges [(1, 2, Some 3)]) = 6
   \<and> edge_norm (from_edges [(1::nat, 2, Some 2), (2, 3, Some 1)]) = 5
   \<and> edge_norm (from_edges [(1::nat, 2, Some 3)]) = 9
   \<and> graph_distance (from_edges [(1::nat, 2, Some 2), (2, 3, Some 1)]) (from_edges [(1, 2, Some 3)]) True
       = Inr (1 / 4)"
proof -
  let ?g0 = "from_edges [(1::nat, 2, Some 2), (2, 3, Some 1)]"
  let ?g1 = "from_edges [(1::nat, 2, Some 3)]"
  have aw: "all_weighted ?g0" "all_weighted ?g1" by code_simp+
  have so: "same_orientation ?g0 ?g1" by code_simp
  have d: "edge_dot ?g0 ?g1 = 6" by code_simp
  have n0: "edge_norm ?g0 = 5" by code_simp
  have n1: "edge_norm ?g1 = 9" by code_simp
  from graph_distance_tanimoto[OF wf_graph_from_edges wf_graph_from_edges aw so, unfolded d n0 n1]
  have "graph_distance ?g0 ?g1 True = Inr (1 / 4)" by simp
  with d n0 n1 show ?thesis by blast
qed

section \<open>The value of Estrangement\<close>

lemma nbrs_of_add_node: "nbrs_of (add_node u g) n = nbrs_of g n"
  by (simp add: nbrs_of_def map_of_add_node)

lemma nbrs_of_dict_set: "nbrs_of (dict_set k nb g) n = (if n = k then nb else nbrs_of g n)"
  by (simp add: nbrs_of_def map_of_dict_set)

lemma nbrs_of_add_edge:
  "nbrs_of (add_edge u v a g) n =
     (let dd = (case a of None \<Rightarrow> (case map_of (nbrs_of g u) v of None \<Rightarrow> None | Some d \<Rightarrow> d)
                | Some w \<Rightarrow> Some w);
          nbu = dict_set v dd (nbrs_of g u)
      in if n = v then dict_set u dd (if v = u then nbu else nbrs_of g v)
         else if n = u then nbu else nbrs_of g n)"
  unfolding add_edge_def Let_def nbrs_of_dict_set nbrs_of_add_node by simp

lemma set_dict_set_distinct:
  "distinct (keys nb) \<Longrightarrow> set (dict_set k e nb) = insert (k, e) {p \<in> set nb. fst p \<noteq> k}"
  unfolding keys_def dict_set_def by (induction nb) force+

lemma symmetric_add_edge:
  assumes "wf_graph g" "symmetric_graph g"
  shows "symmetric_graph (add_edge u v a g)"
proof -
  define dd where "dd = (case a of None \<Rightarrow> (case map_of (nbrs_of g u) v of None \<Rightarrow> None | Some d \<Rightarrow> d)
                | Some w \<Rightarrow> Some w)"
  define nbu where "nbu = dict_set v dd (nbrs_of g u)"
  have du: "distinct (keys (nbrs_of g u))" and dv: "distinct (keys (nbrs_of g v))"
    using assms(1) by (rule wf_graph_nbrs_of)+
  have dnbu: "distinct (keys nbu)" unfolding nbu_def using du by (rule distinct_keys_dict_set)
  have N: "nbrs_of (add_edge u v a g) n =
     (if n = v then dict_set u dd (if v = u then nbu else nbrs_of g v)
         else if n = u then nbu else nbrs_of g n)" for n
    unfolding nbrs_of_add_edge Let_def dd_def nbu_def by simp
  have snbu: "set nbu = insert (v, dd) {p \<in> set (nbrs_of g u). fst p \<noteq> v}"
    unfolding nbu_def using du by (rule set_dict_set_distinct)
  have M: "set (nbrs_of (add_edge u v a g) n) =
     (if n = v then insert (u, dd) {p \<in> set (if v = u then nbu else nbrs_of g v). fst p \<noteq> u}
         else if n = u then set nbu else set (nbrs_of g n))" for n
    unfolding N using dnbu dv by (auto simp: set_dict_set_distinct)
  have S: "(x, d) \<in> set (nbrs_of g n) \<Longrightarrow> (n, d) \<in> set (nbrs_of g x)" for n x d
    using assms(2) unfolding symmetric_graph_def by blast
  have mem: "(x, d) \<in> set (nbrs_of (add_edge u v a g) n) \<longleftrightarrow>
               (n = v \<and> x = u \<and> d = dd) \<or> (n = u \<and> x = v \<and> d = dd)
               \<or> ((n, x) \<noteq> (u, v) \<and> (n, x) \<noteq> (v, u) \<and> (x, d) \<in> set (nbrs_of g n))" for n x d
    by (auto simp: M snbu split: if_splits)
  show ?thesis
    unfolding symmetric_graph_def mem using S by blast
qed

lemma symmetric_foldl:
  "wf_graph g \<Longrightarrow> symmetric_graph g \<Longrightarrow>
   symmetric_graph (foldl (\<lambda>g (u, v, a). add_edge u v a g) g es)"
  by (induction es arbitrary: g) (auto simp: wf_graph_add_edge symmetric_add_edge)

lemma symmetric_from_edges: "symmetric_graph (from_edges es)"
  unfolding from_edges_def
  by (rule symmetric_foldl) (simp_all add: wf_graph_def symmetric_graph_def keys_def nbrs_of_def)

lemma sum_filter_key:
  "distinct (map fst nb) \<Longrightarrow>
   sum_list (map (\<lambda>(v, d). weight_or_1 d) (filter (\<lambda>(v, d). v = n) nb)) = loop_weight n nb"
proof (induction nb)
  case Nil
  then show ?case by (simp add: loop_weight_def)
next
  case (Cons p nb)
  obtain v d where p: "p = (v, d)" by (cases p)
  show ?case
  proof (cases "v = n")
    case True
    with Cons.prems p have "n \<notin> fst ` set nb" by simp
    then have "filter (\<lambda>(v, d). v = n) nb = []"
      by (force simp: filter_empty_conv)
    with True p show ?thesis by (simp add: loop_weight_def)
  next
    case False
    with Cons p show ?thesis by (simp add: loop_weight_def)
  qed
qed

lemma sum_filter_split:
  "sum_list (map f (filter P xs))
     = sum_list (map f (filter (\<lambda>x. P x \<and> Q x) xs)) + sum_list (map (f::'a \<Rightarrow> real) (filter (\<lambda>x. P x \<and> \<not> Q x) xs))"
  by (induction xs) auto

lemma distinct_fst: "distinct (map fst xs) \<Longrightarrow> distinct xs"
  by (simp add: distinct_map)

lemma map_of_unique: "distinct (map fst xs) \<Longrightarrow> (k, v) \<in> set xs \<Longrightarrow> map_of xs k = Some v"
  by (rule map_of_is_SomeI)

lemma incoming_eq_outgoing:
  fixes rest :: "'n graph"
  assumes dk: "distinct (map fst ((n, nb) # rest))"
    and dn: "\<forall>(m, nbm) \<in> set ((n, nb) # rest). distinct (map fst nbm)"
    and ds: "set seen \<inter> fst ` set ((n, nb) # rest) = {}"
    and sym: "\<forall>(m, nbm) \<in> set ((n, nb) # rest). \<forall>(v, d) \<in> set nbm. v \<notin> set seen \<longrightarrow>
                (\<exists>nb'. (v, nb') \<in> set ((n, nb) # rest) \<and> (m, d) \<in> set nb')"
  shows "sum_list (map (\<lambda>(m, nbm). loop_weight n nbm) rest)
           = sum_list (map (\<lambda>(v, d). weight_or_1 d) (filter (\<lambda>(v, d). v \<notin> set (n # seen)) nb))"
proof -
  let ?g = "(n, nb) # rest"
  define SC where "SC = {(v, d). (v, d) \<in> set nb \<and> v \<notin> set (n # seen)}"
  define RB where "RB = {(m, nbm). (m, nbm) \<in> set rest \<and> map_of nbm n \<noteq> None}"
  have dr: "distinct (map fst rest)" and nr: "n \<notin> fst ` set rest" using dk by simp_all
  have dnb: "distinct (map fst nb)" using dn by simp
  have dnm: "\<And>m nbm. (m, nbm) \<in> set rest \<Longrightarrow> distinct (map fst nbm)" using dn by auto
  have nseen: "n \<notin> set seen" using ds by auto
  have rseen: "\<And>m nbm. (m, nbm) \<in> set rest \<Longrightarrow> m \<notin> set seen" using ds by force
  have entry_n: "\<And>nb'. (n, nb') \<in> set ?g \<Longrightarrow> nb' = nb"
    using nr by force
  have C: "sum_list (map (\<lambda>(v, d). weight_or_1 d) (filter (\<lambda>(v, d). v \<notin> set (n # seen)) nb))
             = sum (\<lambda>(v, d). weight_or_1 d) SC"
  proof -
    have "distinct (filter (\<lambda>(v, d). v \<notin> set (n # seen)) nb)"
      using distinct_fst[OF dnb] by simp
    moreover have "set (filter (\<lambda>(v, d). v \<notin> set (n # seen)) nb) = SC"
      by (auto simp: SC_def)
    ultimately show ?thesis by (simp add: sum_list_distinct_conv_sum_set)
  qed
  have B: "sum_list (map (\<lambda>(m, nbm). loop_weight n nbm) rest)
             = sum (\<lambda>(m, nbm). weight_or_1 (the (map_of nbm n))) RB"
  proof -
    have "sum_list (map (\<lambda>(m, nbm). loop_weight n nbm) rest)
            = sum (\<lambda>(m, nbm). loop_weight n nbm) (set rest)"
      using distinct_fst[OF dr] by (simp add: sum_list_distinct_conv_sum_set)
    also have "\<dots> = sum (\<lambda>(m, nbm). loop_weight n nbm) RB"
      by (rule sum.mono_neutral_right) (auto simp: RB_def loop_weight_def split: option.splits)
    also have "\<dots> = sum (\<lambda>(m, nbm). weight_or_1 (the (map_of nbm n))) RB"
      by (rule sum.cong) (auto simp: RB_def loop_weight_def)
    finally show ?thesis .
  qed
  have BC: "sum (\<lambda>(v, d). weight_or_1 d) SC = sum (\<lambda>(m, nbm). weight_or_1 (the (map_of nbm n))) RB"
  proof (rule sum.reindex_bij_witness[where i = "\<lambda>(m, nbm). (m, the (map_of nbm n))"
                                         and j = "\<lambda>(v, d). (v, the (map_of rest v))"])
    fix a assume a: "a \<in> SC"
    obtain v d where vd: "a = (v, d)" by (cases a)
    from a vd have m: "(v, d) \<in> set nb" "v \<noteq> n" "v \<notin> set seen" by (auto simp: SC_def)
    from sym m(1,3) obtain nb' where nb': "(v, nb') \<in> set ?g" "(n, d) \<in> set nb'" by fastforce
    with m(2) have r: "(v, nb') \<in> set rest" by simp
    from map_of_unique[OF dr r] have mr: "map_of rest v = Some nb'" .
    from map_of_unique[OF dnm[OF r] nb'(2)] have mn: "map_of nb' n = Some d" .
    show "(case case a of (v, d) \<Rightarrow> (v, the (map_of rest v)) of (m, nbm) \<Rightarrow> (m, the (map_of nbm n))) = a"
      by (simp add: vd mr mn)
    show "(case a of (v, d) \<Rightarrow> (v, the (map_of rest v))) \<in> RB"
      using r by (simp add: vd mr mn RB_def)
    show "(case case a of (v, d) \<Rightarrow> (v, the (map_of rest v)) of (m, nbm) \<Rightarrow> weight_or_1 (the (map_of nbm n)))
            = (case a of (v, d) \<Rightarrow> weight_or_1 d)"
      by (simp add: vd mr mn)
  next
    fix b assume b: "b \<in> RB"
    obtain m nbm where mb: "b = (m, nbm)" by (cases b)
    from b mb have r: "(m, nbm) \<in> set rest" and "map_of nbm n \<noteq> None" by (auto simp: RB_def)
    then obtain d where d: "map_of nbm n = Some d" by auto
    then have nd: "(n, d) \<in> set nbm" by (rule map_of_SomeD)
    from r have "(m, nbm) \<in> set ?g" by simp
    with sym nd nseen obtain nb' where nb': "(n, nb') \<in> set ?g" "(m, d) \<in> set nb'" by fastforce
    from entry_n[OF nb'(1)] nb'(2) have md: "(m, d) \<in> set nb" by simp
    have mn: "m \<noteq> n" using r nr by force
    from map_of_unique[OF dr r] have mr: "map_of rest m = Some nbm" .
    show "(case case b of (m, nbm) \<Rightarrow> (m, the (map_of nbm n)) of (v, d) \<Rightarrow> (v, the (map_of rest v))) = b"
      by (simp add: mb d mr)
    show "(case b of (m, nbm) \<Rightarrow> (m, the (map_of nbm n))) \<in> SC"
      using md mn rseen[OF r] by (simp add: mb d SC_def)
  qed
  show ?thesis unfolding B C BC ..
qed

lemma sum_unseen_split:
  assumes "distinct (map fst nb)" "n \<notin> set seen"
  shows "sum_list (map (\<lambda>(v, d). weight_or_1 d) (filter (\<lambda>(v, d). v \<notin> set seen) nb))
           = loop_weight n nb
             + sum_list (map (\<lambda>(v, d). weight_or_1 d) (filter (\<lambda>(v, d). v \<notin> set (n # seen)) nb))"
proof -
  have 1: "filter (\<lambda>x. (case x of (v, d) \<Rightarrow> v \<notin> set seen) \<and> (case x of (v, d) \<Rightarrow> v = n)) nb
             = filter (\<lambda>(v, d). v = n) nb"
    using assms(2) by (intro filter_cong) auto
  have 2: "filter (\<lambda>x. (case x of (v, d) \<Rightarrow> v \<notin> set seen) \<and> \<not> (case x of (v, d) \<Rightarrow> v = n)) nb
             = filter (\<lambda>(v, d). v \<notin> set (n # seen)) nb"
    by (intro filter_cong) auto
  show ?thesis
    using sum_filter_split[of "\<lambda>(v, d). weight_or_1 d" "\<lambda>(v, d). v \<notin> set seen" nb "\<lambda>(v, d). v = n"]
    unfolding 1 2 sum_filter_key[OF assms(1)] .
qed

lemma sum_list_split_each:
  fixes f g h k :: "'a \<Rightarrow> real"
  shows "\<forall>x \<in> set xs. f x = g x + h x \<Longrightarrow>
         sum_list (map (\<lambda>x. f x + k x) xs) = sum_list (map (\<lambda>x. h x + k x) xs) + sum_list (map g xs)"
  by (induction xs) auto

lemma handshake_aux:
  fixes g :: "'n graph"
  assumes "distinct (map fst g)"
    and "\<forall>(m, nbm) \<in> set g. distinct (map fst nbm)"
    and "set seen \<inter> fst ` set g = {}"
    and "\<forall>(m, nbm) \<in> set g. \<forall>(v, d) \<in> set nbm. v \<notin> set seen \<longrightarrow>
            (\<exists>nb'. (v, nb') \<in> set g \<and> (m, d) \<in> set nb')"
  shows "sum_list (map (\<lambda>(m, nbm).
             sum_list (map (\<lambda>(v, d). weight_or_1 d) (filter (\<lambda>(v, d). v \<notin> set seen) nbm))
             + loop_weight m nbm) g)
         = 2 * sum_list (map (\<lambda>(u, v, d). weight_or_1 d) (edges_from seen g))"
  using assms
proof (induction g arbitrary: seen)
  case Nil
  then show ?case by simp
next
  case (Cons p rest)
  obtain n nb where p: "p = (n, nb)" by (cases p)
  note prems = Cons.prems[unfolded p]
  have dr: "distinct (map fst rest)" and nr: "n \<notin> fst ` set rest" using prems(1) by simp_all
  have dnb: "distinct (map fst nb)" using prems(2) by simp
  have dnm: "\<forall>(m, nbm) \<in> set rest. distinct (map fst nbm)" using prems(2) by simp
  have nseen: "n \<notin> set seen" using prems(3) by auto
  have ds': "set (n # seen) \<inter> fst ` set rest = {}" using prems(3) nr by auto
  have sym': "\<forall>(m, nbm) \<in> set rest. \<forall>(v, d) \<in> set nbm. v \<notin> set (n # seen) \<longrightarrow>
                (\<exists>nb'. (v, nb') \<in> set rest \<and> (m, d) \<in> set nb')"
  proof (intro ballI, clarify)
    fix m nbm v d
    assume a: "(m, nbm) \<in> set rest" "(v, d) \<in> set nbm" "v \<notin> set (n # seen)"
    then have "(m, nbm) \<in> set ((n, nb) # rest)" "v \<notin> set seen" "v \<noteq> n" by simp_all
    with prems(4) a(2) obtain nb' where "(v, nb') \<in> set ((n, nb) # rest)" "(m, d) \<in> set nb'"
      by fastforce
    with \<open>v \<noteq> n\<close> show "\<exists>nb'. (v, nb') \<in> set rest \<and> (m, d) \<in> set nb'" by auto
  qed
  let ?A = "sum_list (map (\<lambda>(v, d). weight_or_1 d) (filter (\<lambda>(v, d). v \<notin> set seen) nb))"
  let ?C = "sum_list (map (\<lambda>(v, d). weight_or_1 d) (filter (\<lambda>(v, d). v \<notin> set (n # seen)) nb))"
  let ?B = "sum_list (map (\<lambda>(m, nbm). loop_weight n nbm) rest)"
  let ?R = "\<lambda>seen. sum_list (map (\<lambda>(m, nbm).
             sum_list (map (\<lambda>(v, d). weight_or_1 d) (filter (\<lambda>(v, d). v \<notin> set seen) nbm))
             + loop_weight m nbm) rest)"
  have A: "?A = loop_weight n nb + ?C" using dnb nseen by (rule sum_unseen_split)
  have BC: "?B = ?C" using prems by (rule incoming_eq_outgoing)
  have R: "?R seen = ?R (n # seen) + ?B"
  proof -
    have "\<forall>(m, nbm) \<in> set rest.
            sum_list (map (\<lambda>(v, d). weight_or_1 d) (filter (\<lambda>(v, d). v \<notin> set seen) nbm))
            = loop_weight n nbm
              + sum_list (map (\<lambda>(v, d). weight_or_1 d) (filter (\<lambda>(v, d). v \<notin> set (n # seen)) nbm))"
    proof (intro ballI, clarify)
      fix m nbm assume "(m, nbm) \<in> set rest"
      with dnm have "distinct (map fst nbm)" by auto
      from sum_unseen_split[OF this nseen]
      show "sum_list (map (\<lambda>(v, d). weight_or_1 d) (filter (\<lambda>(v, d). v \<notin> set seen) nbm))
            = loop_weight n nbm
              + sum_list (map (\<lambda>(v, d). weight_or_1 d) (filter (\<lambda>(v, d). v \<notin> set (n # seen)) nbm))" .
    qed
    then show ?thesis
      using sum_list_split_each[of rest
          "\<lambda>(m, nbm). sum_list (map (\<lambda>(v, d). weight_or_1 d) (filter (\<lambda>(v, d). v \<notin> set seen) nbm))"
          "\<lambda>(m, nbm). loop_weight n nbm"
          "\<lambda>(m, nbm). sum_list (map (\<lambda>(v, d). weight_or_1 d) (filter (\<lambda>(v, d). v \<notin> set (n # seen)) nbm))"
          "\<lambda>(m, nbm). loop_weight m nbm"]
      by (simp add: case_prod_unfold del: set_simps)
  qed
  have IH: "?R (n # seen) = 2 * sum_list (map (\<lambda>(u, v, d). weight_or_1 d) (edges_from (n # seen) rest))"
    using dr dnm ds' sym' by (rule Cons.IH)
  have W: "sum_list (map (\<lambda>(u, v, d). weight_or_1 d) (edges_from seen ((n, nb) # rest)))
             = ?A + sum_list (map (\<lambda>(u, v, d). weight_or_1 d) (edges_from (n # seen) rest))"
    by (simp add: comp_def case_prod_unfold)
  have "sum_list (map (\<lambda>(m, nbm).
             sum_list (map (\<lambda>(v, d). weight_or_1 d) (filter (\<lambda>(v, d). v \<notin> set seen) nbm))
             + loop_weight m nbm) ((n, nb) # rest)) = ?A + loop_weight n nb + ?R seen"
    by simp
  also have "\<dots> = 2 * ?A + 2 * sum_list (map (\<lambda>(u, v, d). weight_or_1 d) (edges_from (n # seen) rest))"
    unfolding R IH BC using A by simp
  finally show ?case unfolding p W by simp
qed

text \<open>
  \<^verbatim>\<open>G.size(weight='weight')\<close>, half the sum of the weighted degrees, is the sum of the
  weights of the edges of \<open>G\<close>, each edge once and a missing weight as 1.
\<close>

lemma size_weighted_edges:
  assumes "wf_graph g" "symmetric_graph g"
  shows "size_weighted g = sum_list (map (\<lambda>(u, v, d). weight_or_1 d) (edges_data g))"
proof -
  have dk: "distinct (map fst g)" and dn: "\<forall>(m, nbm) \<in> set g. distinct (map fst nbm)"
    using assms(1) by (simp_all add: wf_graph_def keys_def)
  have sym: "\<forall>(m, nbm) \<in> set g. \<forall>(v, d) \<in> set nbm. v \<notin> set [] \<longrightarrow>
               (\<exists>nb'. (v, nb') \<in> set g \<and> (m, d) \<in> set nb')"
  proof (intro ballI, clarify)
    fix m nbm v d assume a: "(m, nbm) \<in> set g" "(v, d) \<in> set nbm"
    from map_of_unique[OF dk a(1)] have "nbrs_of g m = nbm" by (simp add: nbrs_of_def)
    with a(2) assms(2) have "(m, d) \<in> set (nbrs_of g v)" unfolding symmetric_graph_def by blast
    then obtain nb' where "map_of g v = Some nb'" "(m, d) \<in> set nb'"
      by (cases "map_of g v") (auto simp: nbrs_of_def)
    then show "\<exists>nb'. (v, nb') \<in> set g \<and> (m, d) \<in> set nb'"
      by (auto dest: map_of_SomeD)
  qed
  have "sum_list (map snd (degree_weighted g))
          = sum_list (map (\<lambda>(m, nbm).
             sum_list (map (\<lambda>(v, d). weight_or_1 d) (filter (\<lambda>(v, d). v \<notin> set []) nbm))
             + loop_weight m nbm) g)"
    by (simp add: degree_weighted_def node_degree_def loop_weight_def comp_def case_prod_unfold)
  also have "\<dots> = 2 * sum_list (map (\<lambda>(u, v, d). weight_or_1 d) (edges_from [] g))"
    using dk dn _ sym by (rule handshake_aux) simp
  finally show ?thesis by (simp add: size_weighted_def edges_data_def)
qed

lemma estranged_weights_ok:
  "\<forall>e \<in> set es. \<not> missing_input label_dict e \<Longrightarrow>
   estranged_weights label_dict es =
     Inr (map (\<lambda>(u, v, d). weight_or_0 d)
              (filter (\<lambda>(u, v, d). map_of label_dict u \<noteq> map_of label_dict v) es))"
proof (induction label_dict es rule: estranged_weights.induct)
  case (1 label_dict)
  then show ?case by simp
next
  case (2 label_dict u v d es)
  from 2(3) have ok: "\<not> missing_input label_dict (u, v, d)"
    and rest: "\<forall>e \<in> set es. \<not> missing_input label_dict e" by simp_all
  from ok obtain lu lv where l: "map_of label_dict u = Some lu" "map_of label_dict v = Some lv"
    by (auto simp: missing_input_def)
  show ?case
  proof (cases "lu = lv")
    case True
    with 2(2)[OF _ _ _ rest] l show ?thesis by (simp add: getitem_def)
  next
    case ne: False
    with ok l obtain w where w: "d = Some w" by (auto simp: missing_input_def)
    from 2(1)[OF _ _ ne w rest] l ne w show ?thesis by (simp add: getitem_def weight_or_0_def)
  qed
qed

lemma common_edge_tuple:
  assumes "same_orientation g0 g1" "uedge_set g0 \<inter> uedge_set g1 \<noteq> {}"
  shows "set (edges g0) \<inter> set (edges g1) \<noteq> {}"
proof -
  from inj_on_image_Int[OF inj_on_uedge[OF assms(1)], of "set (edges g0)" "set (edges g1)"]
  have "(\<lambda>(u, v). {u, v}) ` (set (edges g0) \<inter> set (edges g1)) = uedge_set g0 \<inter> uedge_set g1"
    by (simp add: uedge_set_def)
  with assms(2) show ?thesis by auto
qed

text \<open>
  When \<open>Zgraph\<close> and \<open>G\<close> have a common edge and report no common edge in opposite
  orders, every Zgraph edge has a weight and labelled endpoints, and the total weight of
  \<open>G\<close> is not 0, \<open>Estrangement\<close> is the weight of all Zgraph edges with differently
  labelled endpoints over the total weight of \<open>G\<close>.
\<close>

lemma Estrangement_value:
  assumes "same_orientation Zgraph G" "uedge_set Zgraph \<inter> uedge_set G \<noteq> {}"
    and "all_weighted Zgraph" "all_labelled label_dict Zgraph"
    and "wf_graph G" "symmetric_graph G" "total_weight G \<noteq> 0"
  shows "Estrangement G label_dict Zgraph = Inr (estranged_weight label_dict Zgraph / total_weight G)"
proof -
  have c: "set (edges Zgraph) \<inter> set (edges G) \<noteq> {}"
    using assms(1,2) by (rule common_edge_tuple)
  have "\<forall>e \<in> set (edges_data Zgraph). \<not> missing_input label_dict e"
    using assms(3,4) unfolding all_weighted_def all_labelled_def missing_input_def by fastforce
  from estranged_weights_ok[OF this]
  have e: "estranged_weights label_dict (edges_data Zgraph) =
     Inr (map (\<lambda>(u, v, d). weight_or_0 d)
              (filter (\<lambda>(u, v, d). map_of label_dict u \<noteq> map_of label_dict v) (edges_data Zgraph)))" .
  have s: "size_weighted G = total_weight G"
    unfolding total_weight_def using assms(5,6) by (rule size_weighted_edges)
  show ?thesis
    using c assms(7) by (simp add: Estrangement_def e s py_div_def estranged_weight_def)
qed

text \<open>
  \<open>G\<close> with the edges 1-2 (weight 2), 1-3 and 2-3 (weight 1), \<open>Zgraph\<close> with the edges 1-2
  (weight 2) and 2-3 (weight 1), labels \<open>{1:a, 2:a, 3:b}\<close>: the Zgraph edge 2-3 has
  differently labelled endpoints, the total weight of \<open>G\<close> is 4, the estrangement is 1/4.
\<close>

lemma Estrangement_value_example:
  "estranged_weight [(1::nat, ''a''), (2, ''a''), (3, ''b'')]
      (from_edges [(1, 2, Some 2), (2, 3, Some 1)]) = 1
   \<and> total_weight (from_edges [(1::nat, 2, Some 2), (1, 3, Some 1), (2, 3, Some 1)]) = 4
   \<and> Estrangement (from_edges [(1::nat, 2, Some 2), (1, 3, Some 1), (2, 3, Some 1)])
        [(1, ''a''), (2, ''a''), (3, ''b'')] (from_edges [(1, 2, Some 2), (2, 3, Some 1)])
       = Inr (1 / 4)"
proof -
  let ?G = "from_edges [(1::nat, 2, Some 2), (1, 3, Some 1), (2, 3, Some 1)]"
  let ?Z = "from_edges [(1::nat, 2, Some 2), (2, 3, Some 1)]"
  let ?l = "[(1::nat, ''a''), (2, ''a''), (3, ''b'')]"
  have so: "same_orientation ?Z ?G" by code_simp
  have c: "uedge_set ?Z \<inter> uedge_set ?G \<noteq> {}" by code_simp
  have aw: "all_weighted ?Z" by code_simp
  have al: "all_labelled ?l ?Z" by code_simp
  have e: "estranged_weight ?l ?Z = 1" by code_simp
  have t: "total_weight ?G = 4" by code_simp
  have t0: "total_weight ?G \<noteq> 0" unfolding t by simp
  from Estrangement_value[OF so c aw al wf_graph_from_edges symmetric_from_edges t0, unfolded e t]
  have "Estrangement ?G ?l ?Z = Inr (1 / 4)" by simp
  with e t show ?thesis by blast
qed

section \<open>Reciprocal matches of match_labels\<close>

lemma jaccard_Inr: "jaccard a b = Inr j \<Longrightarrow> j = jw a b"
  by (auto simp: jaccard_def py_div_def jw_def split: if_splits)

lemma dict_set_append: "k \<notin> set (keys d) \<Longrightarrow> dict_set k v d = d @ [(k, v)]"
  unfolding keys_def dict_set_def by (induction d) auto

lemma keys_append: "keys (xs @ ys) = keys xs @ keys ys"
  by (simp add: keys_def)

lemma keys_map_row: "keys (map (\<lambda>(q, nq). (q, F q nq)) pr) = keys pr"
  by (induction pr) (auto simp: keys_def)

lemma nbrs_of_add_edge_Some:
  "u \<noteq> v \<Longrightarrow> nbrs_of (add_edge u v (Some j) g) n =
     (if n = v then dict_set u (Some j) (nbrs_of g v)
      else if n = u then dict_set v (Some j) (nbrs_of g u) else nbrs_of g n)"
  by (simp add: nbrs_of_add_edge)

lemma overlap_inner_nbrs:
  assumes "overlap_inner l ns pr g = Inr g'" "l \<notin> set (keys pr)" "distinct (keys pr)"
    and "\<forall>q \<in> set (keys pr). q \<notin> set (keys (nbrs_of g l)) \<and> l \<notin> set (keys (nbrs_of g q))"
  shows "nbrs_of g' x =
           (if x = l then nbrs_of g l @ map (\<lambda>(q, nq). (q, Some (jw nq ns))) pr
            else case map_of pr x of
                   Some nq \<Rightarrow> nbrs_of g x @ [(l, Some (jw nq ns))]
                 | None \<Rightarrow> nbrs_of g x)"
  using assms
proof (induction pr arbitrary: g)
  case Nil
  then show ?case by simp
next
  case (Cons p rest)
  obtain q nq where p: "p = (q, nq)" by (cases p)
  from Cons.prems(1) obtain j where j: "jaccard nq ns = Inr j"
    and r: "overlap_inner l ns rest (add_edge q l (Some j) g) = Inr g'"
    by (auto simp: p split: sum.splits)
  have jj: "j = jw nq ns" using j by (rule jaccard_Inr)
  let ?g1 = "add_edge q l (Some j) g"
  from Cons.prems(2) have ql: "q \<noteq> l" and lr: "l \<notin> set (keys rest)" by (auto simp: p keys_Cons)
  from Cons.prems(3) have qr: "q \<notin> set (keys rest)" and dr: "distinct (keys rest)"
    by (auto simp: p keys_Cons)
  from Cons.prems(4) have q1: "q \<notin> set (keys (nbrs_of g l))" and l1: "l \<notin> set (keys (nbrs_of g q))"
    and rest4: "\<forall>q' \<in> set (keys rest). q' \<notin> set (keys (nbrs_of g l)) \<and> l \<notin> set (keys (nbrs_of g q'))"
    by (auto simp: p keys_Cons)
  have N1: "nbrs_of ?g1 n =
     (if n = l then nbrs_of g l @ [(q, Some j)]
      else if n = q then nbrs_of g q @ [(l, Some j)] else nbrs_of g n)" for n
    using ql q1 l1 by (simp add: nbrs_of_add_edge_Some dict_set_append)
  have pre: "\<forall>q' \<in> set (keys rest). q' \<notin> set (keys (nbrs_of ?g1 l)) \<and> l \<notin> set (keys (nbrs_of ?g1 q'))"
    using rest4 qr lr ql by (auto simp: N1 keys_append keys_Cons keys_Nil)
  note IH = Cons.IH[OF r lr dr pre]
  have mq: "map_of rest q = None" using qr by (simp add: keys_iff_map_of)
  have ml: "map_of rest l = None" using lr by (simp add: keys_iff_map_of)
  show ?case
    unfolding IH using ql mq ml by (auto simp: N1[unfolded jj] p jj split: option.splits)
qed

lemma overlap_outer_nbrs:
  assumes "overlap_outer tt pr g = Inr g'" "distinct (keys tt)" "distinct (keys pr)"
    and "set (keys tt) \<inter> set (keys pr) = {}"
    and "\<forall>l \<in> set (keys tt). nbrs_of g l = []"
    and "\<forall>q \<in> set (keys pr). set (keys (nbrs_of g q)) \<inter> set (keys tt) = {}"
  shows "nbrs_of g' x =
           (case map_of tt x of
              Some ns \<Rightarrow> map (\<lambda>(q, nq). (q, Some (jw nq ns))) pr
            | None \<Rightarrow>
                (case map_of pr x of
                   Some nq \<Rightarrow> nbrs_of g x @ map (\<lambda>(l, ns). (l, Some (jw nq ns))) tt
                 | None \<Rightarrow> nbrs_of g x))"
  using assms
proof (induction tt arbitrary: g)
  case Nil
  then show ?case by (simp split: option.splits)
next
  case (Cons p rest)
  obtain l ns where p: "p = (l, ns)" by (cases p)
  from Cons.prems(1) obtain g1 where g1: "overlap_inner l ns pr g = Inr g1"
    and r: "overlap_outer rest pr g1 = Inr g'"
    by (auto simp: p split: sum.splits)
  from Cons.prems(2) have lr: "l \<notin> set (keys rest)" and dr: "distinct (keys rest)"
    by (auto simp: p keys_Cons)
  from Cons.prems(4) have lp: "l \<notin> set (keys pr)" and disj: "set (keys rest) \<inter> set (keys pr) = {}"
    by (auto simp: p keys_Cons)
  from Cons.prems(5) have fl: "nbrs_of g l = []" and fr: "\<forall>l' \<in> set (keys rest). nbrs_of g l' = []"
    by (auto simp: p keys_Cons)
  from Cons.prems(6) have c1: "\<forall>q \<in> set (keys pr). l \<notin> set (keys (nbrs_of g q))"
    and c2: "\<forall>q \<in> set (keys pr). set (keys (nbrs_of g q)) \<inter> set (keys rest) = {}"
    by (auto simp: p keys_Cons)
  have pre: "\<forall>q \<in> set (keys pr). q \<notin> set (keys (nbrs_of g l)) \<and> l \<notin> set (keys (nbrs_of g q))"
    using c1 by (simp add: fl keys_Nil)
  note N1 = overlap_inner_nbrs[OF g1 lp Cons.prems(3) pre]
  have mlp: "map_of pr l = None" using lp by (simp add: keys_iff_map_of)
  have mlr: "map_of rest l = None" using lr by (simp add: keys_iff_map_of)
  have f1: "\<forall>l' \<in> set (keys rest). nbrs_of g1 l' = []"
  proof
    fix l' assume a: "l' \<in> set (keys rest)"
    with lr have "l' \<noteq> l" by auto
    moreover from a disj have "l' \<notin> set (keys pr)" by blast
    then have "map_of pr l' = None" by (simp add: keys_iff_map_of)
    ultimately show "nbrs_of g1 l' = []" using fr a \<open>map_of pr l' = None\<close> by (simp add: N1)
  qed
  have c3: "\<forall>q \<in> set (keys pr). set (keys (nbrs_of g1 q)) \<inter> set (keys rest) = {}"
  proof
    fix q assume a: "q \<in> set (keys pr)"
    with lp have "q \<noteq> l" by auto
    moreover from a obtain nq where "map_of pr q = Some nq" by (auto simp: keys_iff_map_of)
    ultimately have "nbrs_of g1 q = nbrs_of g q @ [(l, Some (jw nq ns))]" by (simp add: N1)
    then show "set (keys (nbrs_of g1 q)) \<inter> set (keys rest) = {}"
      using c2 a lr by (auto simp: keys_append keys_Cons keys_Nil)
  qed
  note IH = Cons.IH[OF r dr Cons.prems(3) disj f1 c3]
  show ?case
  proof (cases "x = l")
    case True
    then show ?thesis unfolding IH by (simp add: p mlr mlp N1 fl)
  next
    case False
    show ?thesis
    proof (cases "map_of rest x")
      case (Some ns')
      then show ?thesis unfolding IH using False by (simp add: p)
    next
      case None
      then show ?thesis unfolding IH using False
        by (cases "map_of pr x") (simp_all add: p N1)
    qed
  qed
qed

lemma overlap_graph_rows:
  assumes "overlap_outer t p [] = Inr g" "distinct (keys t)" "distinct (keys p)"
    and "set (keys t) \<inter> set (keys p) = {}"
  shows "map_of t l = Some ns \<Longrightarrow> nbrs_of g l = map (\<lambda>(q, nq). (q, Some (jw nq ns))) p"
    and "map_of p q = Some nq \<Longrightarrow> nbrs_of g q = map (\<lambda>(l, ns). (l, Some (jw nq ns))) t"
proof -
  have e: "nbrs_of ([] :: 'a graph) x = []" for x by (simp add: nbrs_of_def)
  have N: "nbrs_of g x =
           (case map_of t x of
              Some ns \<Rightarrow> map (\<lambda>(q, nq). (q, Some (jw nq ns))) p
            | None \<Rightarrow>
                (case map_of p x of
                   Some nq \<Rightarrow> nbrs_of [] x @ map (\<lambda>(l, ns). (l, Some (jw nq ns))) t
                 | None \<Rightarrow> nbrs_of [] x))" for x
    by (rule overlap_outer_nbrs[OF assms]) (simp_all add: e keys_Nil)
  show "map_of t l = Some ns \<Longrightarrow> nbrs_of g l = map (\<lambda>(q, nq). (q, Some (jw nq ns))) p"
    by (simp add: N)
  show "map_of p q = Some nq \<Longrightarrow> nbrs_of g q = map (\<lambda>(l, ns). (l, Some (jw nq ns))) t"
  proof -
    assume a: "map_of p q = Some nq"
    then have "q \<in> set (keys p)" by (simp add: keys_iff_map_of)
    with assms(4) have "q \<notin> set (keys t)" by blast
    then have "map_of t q = None" by (simp add: keys_iff_map_of)
    with a show ?thesis by (simp add: N e)
  qed
qed

lemma foldl_first_max:
  fixes x :: "'a \<times> real"
  shows "\<exists>ys zs. x # xs = ys @ foldl (\<lambda>best y. if snd best < snd y then y else best) x xs # zs
     \<and> (\<forall>y \<in> set ys. snd y < snd (foldl (\<lambda>best y. if snd best < snd y then y else best) x xs))
     \<and> (\<forall>z \<in> set zs. snd z \<le> snd (foldl (\<lambda>best y. if snd best < snd y then y else best) x xs))"
proof (induction xs rule: rev_induct)
  case Nil
  have "[x] = [] @ x # []" by simp
  then show ?case by force
next
  case (snoc y xs)
  define b where "b = foldl (\<lambda>best y. if snd best < snd y then y else best) x xs"
  have step: "foldl (\<lambda>best y. if snd best < snd y then y else best) x (xs @ [y])
                = (if snd b < snd y then y else b)"
    by (simp add: b_def)
  from snoc obtain ys zs where d: "x # xs = ys @ b # zs"
    and lt: "\<forall>y \<in> set ys. snd y < snd b" and le: "\<forall>z \<in> set zs. snd z \<le> snd b"
    unfolding b_def by blast
  show ?case
  proof (cases "snd b < snd y")
    case True
    have 1: "x # xs @ [y] = (ys @ b # zs) @ y # []" using d by simp
    have 2: "\<forall>a \<in> set (ys @ b # zs). snd a < snd y"
    proof
      fix a assume "a \<in> set (ys @ b # zs)"
      then consider "a \<in> set ys" | "a = b" | "a \<in> set zs" by auto
      then show "snd a < snd y"
      proof cases
        case 1 with lt True show ?thesis by fastforce
      next
        case 2 with True show ?thesis by simp
      next
        case 3 with le True show ?thesis by fastforce
      qed
    qed
    have 3: "\<forall>z \<in> set ([] :: ('a \<times> real) list). snd z \<le> snd y" by simp
    show ?thesis unfolding step using True 1 2 3 by (simp only: if_True) blast
  next
    case False
    have 1: "x # xs @ [y] = ys @ b # (zs @ [y])" using d by simp
    have 2: "\<forall>z \<in> set (zs @ [y]). snd z \<le> snd b" using le False by auto
    show ?thesis unfolding step using False 1 lt 2 by (simp only: if_False) blast
  qed
qed

lemma max_by_weight_first:
  assumes "max_by_weight ps = Inr b"
  shows "\<exists>ys zs. ps = ys @ b # zs \<and> (\<forall>y \<in> set ys. snd y < snd b) \<and> (\<forall>z \<in> set zs. snd z \<le> snd b)"
proof -
  from assms obtain x xs where ps: "ps = x # xs"
    and b: "b = foldl (\<lambda>best y. if snd best < snd y then y else best) x xs"
    by (cases ps) auto
  show ?thesis unfolding ps b by (rule foldl_first_max)
qed

lemma first_max_pairs:
  assumes "max_by_weight ps = Inr b" "\<forall>x \<in> set ps. snd x = h (fst x)"
  shows "first_max h (map fst ps) (fst b)"
proof -
  from max_by_weight_first[OF assms(1)] obtain ys zs where d: "ps = ys @ b # zs"
    and lt: "\<forall>y \<in> set ys. snd y < snd b" and le: "\<forall>z \<in> set zs. snd z \<le> snd b" by blast
  have "map fst ps = map fst ys @ fst b # map fst zs" by (simp add: d)
  moreover have "\<forall>y \<in> set (map fst ys). h y < h (fst b)"
    using lt assms(2) d by auto
  moreover have "\<forall>z \<in> set (map fst zs). h z \<le> h (fst b)"
    using le assms(2) d by auto
  ultimately show ?thesis unfolding first_max_def by blast
qed

lemma nbr_weights_row:
  "nbr_weights (map (\<lambda>(q, nq). (q, Some (F nq))) pr) = Inr (map (\<lambda>(q, nq). (q, F nq)) pr)"
  by (induction pr) auto

lemma defaultdict_get_mem:
  "distinct (keys d) \<Longrightarrow> (k, v) \<in> set d \<Longrightarrow> defaultdict_get d k = v"
  by (simp add: defaultdict_get_def keys_def map_of_is_SomeI)

lemma max_nbr_row:
  assumes "nbrs_of g v = map (\<lambda>(q, nq). (q, Some (F nq))) pr" "pr \<noteq> []" "distinct (keys pr)"
  shows "first_max (\<lambda>q. F (defaultdict_get pr q)) (keys pr) (max_nbr g v)"
proof -
  let ?ps = "map (\<lambda>(q, nq). (q, F nq)) pr"
  from assms(2) have "?ps \<noteq> []" by simp
  from max_by_weight_ok[OF this] obtain b where b: "max_by_weight ?ps = Inr b" by blast
  have m: "max_nbr g v = fst b" by (simp add: max_nbr_def assms(1) nbr_weights_row b)
  have "\<forall>x \<in> set ?ps. snd x = F (defaultdict_get pr (fst x))"
    using defaultdict_get_mem[OF assms(3)] by auto
  from first_max_pairs[OF b this] have "first_max (\<lambda>q. F (defaultdict_get pr q)) (map fst ?ps) (fst b)" .
  moreover have "map fst ?ps = keys pr" by (induction pr) (auto simp: keys_def)
  ultimately show ?thesis by (simp add: m)
qed

lemma first_max_mem: "first_max f xs m \<Longrightarrow> m \<in> set xs"
  by (auto simp: first_max_def)

lemma di_first_add_edge:
  assumes "di_first g s"
  shows "di_first g (di_add_edge v (max_nbr g v) s)"
  unfolding di_first_def
proof (intro allI impI)
  fix u vs assume a: "map_of (di_add_edge v (max_nbr g v) s) u = Some vs"
  let ?m = "max_nbr g v"
  have old: "(case map_of s n of None \<Rightarrow> [] | Some vs \<Rightarrow> vs) = []
              \<or> (\<exists>ws. (case map_of s n of None \<Rightarrow> [] | Some vs \<Rightarrow> vs) = max_nbr g n # ws)" for n
    using assms unfolding di_first_def by (cases "map_of s n") auto
  consider "u = v" "vs = set_add ?m (case map_of s v of None \<Rightarrow> [] | Some vs \<Rightarrow> vs)"
    | "u \<noteq> v" "u = ?m" "vs = (case map_of s ?m of None \<Rightarrow> [] | Some vs \<Rightarrow> vs)"
    | "u \<noteq> v" "u \<noteq> ?m" "map_of s u = Some vs"
    using a by (cases "map_of s ?m") (auto simp: map_of_di_add_edge split: if_splits)
  then show "vs = [] \<or> (\<exists>ws. vs = max_nbr g u # ws)"
  proof cases
    case 1
    from old[of v] show ?thesis
    proof
      assume "(case map_of s v of None \<Rightarrow> [] | Some vs \<Rightarrow> vs) = []"
      with 1 show ?thesis by (simp add: set_add_def)
    next
      assume "\<exists>ws. (case map_of s v of None \<Rightarrow> [] | Some vs \<Rightarrow> vs) = max_nbr g v # ws"
      with 1 show ?thesis by (auto simp: set_add_def)
    qed
  next
    case 2
    then show ?thesis using old[of ?m] by simp
  next
    case 3
    then show ?thesis using assms unfolding di_first_def by blast
  qed
qed

lemma max_overlap_loop_first:
  "max_overlap_loop vs g s = Inr s' \<Longrightarrow> di_first g s \<Longrightarrow> di_first g s'"
proof (induction vs arbitrary: s)
  case Nil
  then show ?case by simp
next
  case (Cons v vs)
  from Cons.prems(1) obtain ps best where ps: "nbr_weights (nbrs_of g v) = Inr ps"
    and best: "max_by_weight ps = Inr best"
    and r: "max_overlap_loop vs g (di_add_edge v (fst best) s) = Inr s'"
    by (auto split: sum.splits)
  have "fst best = max_nbr g v" by (simp add: max_nbr_def ps best)
  with r have r': "max_overlap_loop vs g (di_add_edge v (max_nbr g v) s) = Inr s'" by simp
  from Cons.IH[OF r' di_first_add_edge[OF Cons.prems(2)]] show ?case .
qed

lemma first_successor_max_nbr:
  assumes "di_first g s" "di_done V s" "v \<in> V"
  shows "first_successor s v = Inr (max_nbr g v)"
proof -
  from assms(2,3) obtain m vs where m: "map_of s v = Some (m # vs)"
    unfolding di_done_def by blast
  with assms(1) have "m = max_nbr g v" unfolding di_first_def by fastforce
  with m show ?thesis by (simp add: first_successor_def successors_def)
qed

lemma keys_dict_set_list:
  "keys (dict_set k v d) = (if k \<in> set (keys d) then keys d else keys d @ [k])"
  unfolding keys_def dict_set_def by (induction d) auto

lemma filter_removeAll_in: "l \<in> K \<Longrightarrow> filter (\<lambda>x. x \<notin> K) (removeAll l xs) = filter (\<lambda>x. x \<notin> K) xs"
  by (induction xs) auto

lemma filter_removeAll_insert:
  "filter (\<lambda>x. x \<notin> K) (removeAll l xs) = filter (\<lambda>x. x \<notin> insert l K) xs"
  by (induction xs) auto

lemma nodesets_order_foldl:
  "keys (foldl (\<lambda>acc (n, l). dict_set l (set_add n (defaultdict_get acc l)) acc) acc d)
     = keys acc @ filter (\<lambda>x. x \<notin> set (keys acc)) (first_occurrences (map snd d))"
proof (induction d arbitrary: acc)
  case Nil
  then show ?case by simp
next
  case (Cons a d)
  obtain n l where a: "a = (n, l)" by (cases a)
  show ?case
  proof (cases "l \<in> set (keys acc)")
    case True
    then show ?thesis
      by (simp add: a Cons.IH keys_dict_set_list filter_removeAll_in)
  next
    case False
    then show ?thesis
      by (simp add: a Cons.IH keys_dict_set_list filter_removeAll_insert)
  qed
qed

lemma nodesets_order: "keys (nodesets_per_label d) = first_occurrences (map snd d)"
  by (simp add: nodesets_per_label_def nodesets_order_foldl keys_Nil)

lemma distinct_first_occurrences: "distinct (first_occurrences xs)"
  by (induction xs) (auto simp: distinct_removeAll)

lemma set_first_occurrences: "set (first_occurrences xs) = set xs"
  by (induction xs) auto

lemma jw_group:
  "jw (defaultdict_get (nodesets_per_label d) q) (defaultdict_get (nodesets_per_label e) l)
     = jaccard_overlap (label_group d q) (label_group e l)"
  by (simp add: jw_def jaccard_overlap_def label_group_def nodesets_group)

lemma relabel_max_nbr:
  assumes "di_first g s" "di_done V s" "l \<in> V" "max_nbr g l \<in> V"
  shows "relabel s l = (if max_nbr g (max_nbr g l) = l then max_nbr g l else l)"
  by (simp add: relabel_def best_matched_label_def
        first_successor_max_nbr[OF assms(1,2,3)] first_successor_max_nbr[OF assms(1,2,4)])

text \<open>
  When no label occurs in both dictionaries, \<open>match_labels\<close> gives the node \<open>n\<close> of the
  t-label group \<open>l\<close> the t-1 label \<open>m\<close> exactly when the match is reciprocal: \<open>m\<close> is the
  t-1 label of maximal Jaccard overlap with \<open>l\<close> and \<open>l\<close> is the t-label of maximal overlap
  with \<open>m\<close>, the first maximum in the order of the labels deciding a tie; otherwise \<open>n\<close>
  keeps \<open>l\<close>.
\<close>

lemma match_labels_reciprocal:
  fixes label_dict prev_label_dict :: "('n, 'l) dict"
  assumes dk: "distinct (keys label_dict)" and ne: "prev_label_dict \<noteq> []"
    and disj: "snd ` set label_dict \<inter> snd ` set prev_label_dict = {}"
    and n: "map_of label_dict n = Some l"
  shows "\<exists>out m k.
           match_labels label_dict prev_label_dict = Inr out
         \<and> first_max (\<lambda>q. jaccard_overlap (label_group prev_label_dict q) (label_group label_dict l))
             (first_occurrences (map snd prev_label_dict)) m
         \<and> first_max (\<lambda>k. jaccard_overlap (label_group prev_label_dict m) (label_group label_dict k))
             (first_occurrences (map snd label_dict)) k
         \<and> map_of out n = Some (if k = l then m else l)"
proof -
  let ?t = "nodesets_per_label label_dict"
  let ?p = "nodesets_per_label prev_label_dict"
  have p: "?p \<noteq> []" using ne by (rule nodesets_not_Nil)
  from n have "(n, l) \<in> set label_dict" by (rule map_of_SomeD)
  then have lt: "l \<in> set (keys ?t)" by (force simp: nodesets_keys)
  then have t: "?t \<noteq> []" by (auto simp: keys_Nil)
  have dt: "distinct (keys ?t)" and dp: "distinct (keys ?p)"
    by (simp_all add: nodesets_order distinct_first_occurrences)
  have dj: "set (keys ?t) \<inter> set (keys ?p) = {}" using disj by (simp add: nodesets_keys)
  have e: "overlap_inv ([] :: 'l graph)" by (simp add: overlap_inv_def)
  from overlap_outer_ok[OF groups_nonempty_nodesets e, of label_dict ?p] p
  obtain g where g: "overlap_outer ?t ?p [] = Inr g" "overlap_inv g"
    "\<forall>l \<in> set (keys ?t). map_of g l \<noteq> None" by blast
  define K where "K = {n. map_of g n \<noteq> None}"
  have kn: "set (keys g) = K" by (auto simp: K_def keys_iff_map_of)
  have i0: "di_inv K []" by (simp add: di_inv_def)
  have d0: "di_done {} ([] :: 'l digraph)" by (simp add: di_done_def)
  from max_overlap_loop_ok[OF g(2) K_def i0 d0, of "nodes g"] kn
  obtain s where s: "max_overlap_loop (nodes g) g [] = Inr s" "di_inv K s" "di_done K s"
    by (auto simp: nodes_def)
  have f0: "di_first g []" by (simp add: di_first_def)
  have f: "di_first g s" using max_overlap_loop_first[OF s(1) f0] .
  have sub: "set (keys ?t) \<subseteq> K" using g(3) by (auto simp: K_def)
  from relabel_loop_ok[OF s(2,3) subset_refl sub, of ?t "[]"]
  obtain out where r: "relabel_loop (keys ?t) ?t s [] = Inr out" by blast
  have ml: "match_labels label_dict prev_label_dict = Inr out"
    using ne r by (simp add: match_labels_def Let_def g(1) s(1))
  have mo: "map_of out n = Some (relabel s l)"
    using match_labels_map_of[OF dk r, of n] n by simp
  define m where "m = max_nbr g l"
  define k where "k = max_nbr g m"
  let ?ns = "defaultdict_get ?t l"
  from lt dt have tl: "map_of ?t l = Some ?ns"
    by (auto simp: defaultdict_get_def keys_iff_map_of)
  have rowl: "nbrs_of g l = map (\<lambda>(q, nq). (q, Some (jw nq ?ns))) ?p"
    using overlap_graph_rows(1)[OF g(1) dt dp dj tl] .
  from max_nbr_row[OF rowl p dp]
  have fm1: "first_max (\<lambda>q. jw (defaultdict_get ?p q) ?ns) (keys ?p) m" by (simp add: m_def)
  then have mp: "m \<in> set (keys ?p)" by (rule first_max_mem)
  let ?nm = "defaultdict_get ?p m"
  from mp have pm: "map_of ?p m = Some ?nm"
    by (auto simp: defaultdict_get_def keys_iff_map_of)
  have rowm: "nbrs_of g m = map (\<lambda>(l, ns). (l, Some (jw ?nm ns))) ?t"
    using overlap_graph_rows(2)[OF g(1) dt dp dj pm] .
  from max_nbr_row[OF rowm t dt]
  have fm2: "first_max (\<lambda>k. jw ?nm (defaultdict_get ?t k)) (keys ?t) k" by (simp add: k_def)
  have lK: "l \<in> K" using lt sub by blast
  have "(m, Some (jw ?nm ?ns)) \<in> set (nbrs_of g l)"
  proof -
    from pm have "(m, ?nm) \<in> set ?p" by (rule map_of_SomeD)
    then show ?thesis unfolding rowl by force
  qed
  moreover obtain nb where nb: "map_of g l = Some nb" using lK by (auto simp: K_def)
  ultimately have "(m, Some (jw ?nm ?ns)) \<in> set nb" by (simp add: nbrs_of_def)
  with g(2) nb have "map_of g m \<noteq> None" unfolding overlap_inv_def by fastforce
  then have mK: "m \<in> K" by (simp add: K_def)
  have rl: "relabel s l = (if k = l then m else l)"
    using relabel_max_nbr[OF f s(3) lK mK[unfolded m_def]] by (simp add: m_def k_def)
  from fm1 have F1: "first_max (\<lambda>q. jaccard_overlap (label_group prev_label_dict q) (label_group label_dict l))
             (first_occurrences (map snd prev_label_dict)) m"
    by (simp add: jw_group nodesets_order)
  from fm2 have F2: "first_max (\<lambda>k. jaccard_overlap (label_group prev_label_dict m) (label_group label_dict k))
             (first_occurrences (map snd label_dict)) k"
    by (simp add: jw_group nodesets_order)
  from ml F1 F2 mo rl show ?thesis by auto
qed

text \<open>
  \<open>label_dict = {1:a, 2:a, 3:b}\<close> and \<open>prev_label_dict = {1:x, 2:x, 3:y}\<close>: the groups
  \<open>a\<close> and \<open>x\<close> are each other's best match, and so are \<open>b\<close> and \<open>y\<close>.
\<close>

lemma match_labels_reciprocal_example:
  "match_labels [(1::nat, ''a''), (2, ''a''), (3, ''b'')] [(1, ''x''), (2, ''x''), (3, ''y'')]
     = Inr [(1, ''x''), (2, ''x''), (3, ''y'')]
   \<and> (\<exists>out m k.
         match_labels [(1::nat, ''a''), (2, ''a''), (3, ''b'')] [(1, ''x''), (2, ''x''), (3, ''y'')] = Inr out
       \<and> first_max (\<lambda>q. jaccard_overlap (label_group [(1::nat, ''x''), (2, ''x''), (3, ''y'')] q)
                          (label_group [(1::nat, ''a''), (2, ''a''), (3, ''b'')] ''a''))
           (first_occurrences (map snd [(1::nat, ''x''), (2, ''x''), (3, ''y'')])) m
       \<and> first_max (\<lambda>k. jaccard_overlap (label_group [(1::nat, ''x''), (2, ''x''), (3, ''y'')] m)
                          (label_group [(1::nat, ''a''), (2, ''a''), (3, ''b'')] k))
           (first_occurrences (map snd [(1::nat, ''a''), (2, ''a''), (3, ''b'')])) k
       \<and> map_of out 1 = Some (if k = ''a'' then m else ''a''))"
proof -
  let ?t = "[(1::nat, ''a''), (2, ''a''), (3, ''b'')]"
  let ?p = "[(1::nat, ''x''), (2, ''x''), (3, ''y'')]"
  have 1: "match_labels ?t ?p = Inr [(1, ''x''), (2, ''x''), (3, ''y'')]" by code_simp
  have dk: "distinct (keys ?t)" by code_simp
  have ne: "?p \<noteq> []" by simp
  have dj: "snd ` set ?t \<inter> snd ` set ?p = {}" by code_simp
  have n: "map_of ?t 1 = Some ''a''" by simp
  from 1 match_labels_reciprocal[OF dk ne dj n] show ?thesis by blast
qed


section \<open>confidence_interval\<close>





end
